theory Spec2Isabelle
  imports Main "HOL-Library.AList"
begin

section \<open>Python values, exceptions and queue-backed controllers\<close>

text \<open>
  The development embeds \<^verbatim>\<open>control.py\<close>: the composite controller
  \<^verbatim>\<open>MultiController\<close>, the single-owner receiver \<^verbatim>\<open>Monoreceiver\<close> and the
  group receiver \<^verbatim>\<open>Multireceiver\<close> with its private \<^verbatim>\<open>DummyController\<close>
  adapters.

  Commands and messages are Python values. Only three shapes matter to the code:
  \<^verbatim>\<open>None\<close> (what a function returns when it falls off its end), booleans and
  strings.
\<close>

datatype pyval = PyNone | PyBool bool | PyStr string

text \<open>
  The ways a call can fail to return a value: an exception that the module raises, or
  \<open>Blocked\<close>, a \<^verbatim>\<open>queue.Queue.get()\<close> on an empty queue, which waits for an item
  that the single thread of control can never supply.
\<close>

datatype error = AttributeError | AssertionError | Blocked

text \<open>
  A \<^verbatim>\<open>Player\<close> owns two \<^verbatim>\<open>queue.Queue\<close> objects. Players are objects with
  identity, so their queues live in a store indexed by the identity; a queue is the list
  of its elements, oldest first.
\<close>

type_synonym pid = nat

record queues =
  command_queue :: "pid \<Rightarrow> pyval list"
  message_queue :: "pid \<Rightarrow> pyval list"

text \<open>
  A controller is a \<^verbatim>\<open>Player\<close>, the concrete controller with queues of its own,
  or a \<^verbatim>\<open>MultiController\<close>, which holds its \<^verbatim>\<open>_ctrl_list\<close>.
\<close>

datatype controller = Player pid | MultiController "controller list"

text \<open>An argument of a constructor is any Python object: a controller or something else.\<close>

datatype pyobj = Ctrl controller | NonCtrl

section \<open>MultiController\<close>

text \<open>
  \<^verbatim>\<open>__init__(self, *controllers)\<close>: the loop over the arguments, with the list
  built so far as accumulator. \<^verbatim>\<open>extend(ctrl)\<close> iterates the argument, and
  \<^verbatim>\<open>__iter__\<close> yields the elements of its \<^verbatim>\<open>_ctrl_list\<close>.
\<close>

fun init_loop :: "controller list \<Rightarrow> pyobj list \<Rightarrow> error + controller list" where
  "init_loop ctrl_list [] = Inr ctrl_list"
| "init_loop ctrl_list (a # rest) =
     (case a of
        NonCtrl \<Rightarrow> Inl AssertionError
      | Ctrl ctrl \<Rightarrow>
          (case ctrl of
             MultiController l \<Rightarrow> init_loop (ctrl_list @ l) rest
           | Player i \<Rightarrow> init_loop (ctrl_list @ [ctrl]) rest))"

definition MultiController_init :: "pyobj list \<Rightarrow> error + controller" where
  "MultiController_init controllers =
     (case init_loop [] controllers of
        Inl e \<Rightarrow> Inl e
      | Inr ctrl_list \<Rightarrow> Inr (MultiController ctrl_list))"

text \<open>
  \<^verbatim>\<open>Player.has_cmd\<close> is \<^verbatim>\<open>not self._command_queue.empty()\<close>;
  \<^verbatim>\<open>MultiController.has_cmd\<close> is \<^verbatim>\<open>any(ctrl.has_cmd() for ctrl in self)\<close>.
\<close>

fun has_cmd :: "queues \<Rightarrow> controller \<Rightarrow> bool" where
  "has_cmd q (Player i) = (command_queue q i \<noteq> [])"
| "has_cmd q (MultiController l) = list_ex (has_cmd q) l"

fun has_msg :: "queues \<Rightarrow> controller \<Rightarrow> bool" where
  "has_msg q (Player i) = (message_queue q i \<noteq> [])"
| "has_msg q (MultiController l) = list_ex (has_msg q) l"

text \<open>
  \<^verbatim>\<open>Player.read_cmd\<close> is \<^verbatim>\<open>self._command_queue.get()\<close>, which blocks on an
  empty queue. \<^verbatim>\<open>MultiController.read_cmd\<close> returns from inside its loop at the
  first member whose \<^verbatim>\<open>has_cmd()\<close> holds, and falls off its end (returning
  Python's \<^verbatim>\<open>None\<close>) when the loop finishes.
\<close>

fun read_cmd :: "controller \<Rightarrow> queues \<Rightarrow> error + (pyval \<times> queues)"
  and read_cmd_loop :: "controller list \<Rightarrow> queues \<Rightarrow> error + (pyval \<times> queues)" where
  "read_cmd (Player i) q =
     (case command_queue q i of
        [] \<Rightarrow> Inl Blocked
      | c # cs \<Rightarrow> Inr (c, q\<lparr>command_queue := (command_queue q)(i := cs)\<rparr>))"
| "read_cmd (MultiController l) q = read_cmd_loop l q"
| "read_cmd_loop [] q = Inr (PyNone, q)"
| "read_cmd_loop (ctrl # rest) q =
     (if has_cmd q ctrl then read_cmd ctrl q else read_cmd_loop rest q)"

text \<open>
  \<^verbatim>\<open>Player.write_msg\<close> puts the message on the message queue;
  \<^verbatim>\<open>MultiController.write_msg\<close> sends it to every member in order.
\<close>

fun write_msg :: "controller \<Rightarrow> pyval \<Rightarrow> queues \<Rightarrow> queues"
  and write_msg_loop :: "controller list \<Rightarrow> pyval \<Rightarrow> queues \<Rightarrow> queues" where
  "write_msg (Player i) msg q = q\<lparr>message_queue := (message_queue q)(i := message_queue q i @ [msg])\<rparr>"
| "write_msg (MultiController l) msg q = write_msg_loop l msg q"
| "write_msg_loop [] msg q = q"
| "write_msg_loop (ctrl # rest) msg q = write_msg_loop rest msg (write_msg ctrl msg q)"

text \<open>The players reachable from a controller, in iteration order.\<close>

fun leaves :: "controller \<Rightarrow> pid list" where
  "leaves (Player i) = [i]"
| "leaves (MultiController l) = concat (map leaves l)"

text \<open>What a constituent contributes to a new composite: itself, or its own members.\<close>

fun members :: "controller \<Rightarrow> controller list" where
  "members (Player i) = [Player i]"
| "members (MultiController l) = l"

text \<open>A controller as the constructor leaves it: every member of a composite is a player.\<close>

fun is_player :: "controller \<Rightarrow> bool" where
  "is_player (Player i) = True"
| "is_player (MultiController l) = False"

definition flat :: "controller \<Rightarrow> bool" where
  "flat c = list_all is_player (members c)"

text \<open>
  The commands that repeated \<^verbatim>\<open>read_cmd()\<close> calls hand out, in order: the
  queue of the first player, then that of the next one, and so on. A player that occurs
  twice among the leaves is empty when its second occurrence is reached.
\<close>

fun queued :: "queues \<Rightarrow> pid list \<Rightarrow> pyval list" where
  "queued q [] = []"
| "queued q (i # rest) =
     command_queue q i @ queued (q\<lparr>command_queue := (command_queue q)(i := [])\<rparr>) rest"

text \<open>The queues once every player of a controller has been read empty.\<close>

definition drained :: "controller \<Rightarrow> queues \<Rightarrow> queues" where
  "drained c q = q\<lparr>command_queue := (\<lambda>i. if i \<in> set (leaves c) then [] else command_queue q i)\<rparr>"

section \<open>Monoreceiver\<close>

text \<open>
  Receivers and controllers are objects that refer to each other. The heap holds, for
  every receiver, its \<^verbatim>\<open>controller\<close> field and, for every controller, its
  \<^verbatim>\<open>receiver\<close> field; \<open>None\<close> is Python's \<^verbatim>\<open>None\<close>. Objects compare by
  identity (neither class defines \<^verbatim>\<open>__eq__\<close>).
\<close>

type_synonym rid = nat
type_synonym oid = nat

record heap =
  r_controller :: "rid \<Rightarrow> oid option"
  c_receiver :: "oid \<Rightarrow> rid option"

definition fresh_heap :: heap where
  "fresh_heap = \<lparr>r_controller = Map.empty, c_receiver = Map.empty\<rparr>"

definition Monoreceiver_detach :: "rid \<Rightarrow> heap \<Rightarrow> heap" where
  "Monoreceiver_detach self h =
     (let h1 = (case r_controller h self of
                  Some c \<Rightarrow> h\<lparr>c_receiver := (c_receiver h)(c := None)\<rparr>
                | None \<Rightarrow> h)
      in h1\<lparr>r_controller := (r_controller h1)(self := None)\<rparr>)"

text \<open>
  \<^verbatim>\<open>attach(controller)\<close> takes any value. With \<^verbatim>\<open>None\<close> for a receiver that
  has a controller, the assignment \<^verbatim>\<open>self.controller.receiver = self\<close> raises.
\<close>

definition Monoreceiver_attach :: "rid \<Rightarrow> oid option \<Rightarrow> heap \<Rightarrow> error + heap" where
  "Monoreceiver_attach self controller h =
     (if controller = r_controller h self then Inr h
      else
        (let h1 = Monoreceiver_detach self h;
             h2 = h1\<lparr>r_controller := (r_controller h1)(self := controller)\<rparr>
         in case r_controller h2 self of
              None \<Rightarrow> Inl AttributeError
            | Some c \<Rightarrow> Inr (h2\<lparr>c_receiver := (c_receiver h2)(c := Some self)\<rparr>)))"

text \<open>Sequences of calls on any receivers, with any controllers.\<close>

datatype call = Attach rid oid | Detach rid

fun do_call :: "call \<Rightarrow> heap \<Rightarrow> error + heap" where
  "do_call (Attach r c) h = Monoreceiver_attach r (Some c) h"
| "do_call (Detach r) h = Inr (Monoreceiver_detach r h)"

fun run :: "call list \<Rightarrow> heap \<Rightarrow> error + heap" where
  "run [] h = Inr h"
| "run (x # xs) h = (case do_call x h of Inl e \<Rightarrow> Inl e | Inr h' \<Rightarrow> run xs h')"

text \<open>The symmetry of the two back-references.\<close>

definition symmetric :: "heap \<Rightarrow> bool" where
  "symmetric h = (\<forall>r c. r_controller h r = Some c \<longleftrightarrow> c_receiver h c = Some r)"

text \<open>
  A sequence of calls in which a controller is only attached to a receiver while it drives
  no other receiver.
\<close>

fun exclusive :: "call list \<Rightarrow> heap \<Rightarrow> bool" where
  "exclusive [] h = True"
| "exclusive (Attach r c # xs) h =
     ((c_receiver h c = None \<or> c_receiver h c = Some r) \<and>
      (case Monoreceiver_attach r (Some c) h of Inl e \<Rightarrow> False | Inr h' \<Rightarrow> exclusive xs h'))"
| "exclusive (Detach r # xs) h = exclusive xs (Monoreceiver_detach r h)"

section \<open>Multireceiver\<close>

text \<open>
  A \<^verbatim>\<open>DummyController\<close> is an object with identity \<open>d_id\<close> and the receiver it
  was made for. Its private \<^verbatim>\<open>_command_queue\<close> lives in the state, in a store
  indexed by the identity, so that the queue of an adapter is still there to look at
  when the dictionary no longer refers to the adapter. The \<^verbatim>\<open>controller\<close> field of
  a member receiver refers to one of these adapters or to some other controller object.
\<close>

record dummy_controller =
  d_id :: nat
  d_receiver :: rid

datatype cref = Dummy nat | Other nat

text \<open>
  The state is the \<^verbatim>\<open>Multireceiver\<close> object (\<open>controller\<close>, \<open>rec_dict\<close>,
  \<open>outgoing_size\<close>, \<open>outgoing\<close>) together with the part of the heap that its methods
  read and write: the \<^verbatim>\<open>controller\<close> field and the \<^verbatim>\<open>str()\<close> of every
  receiver, the queues of the players, and the command queues of the adapters
  (\<open>dummy_queue\<close>). \<^verbatim>\<open>_rec_dict\<close> is a Python dictionary,
  which iterates in insertion order: an association list with distinct keys. The field
  \<^verbatim>\<open>messages\<close> is never used by the class and is left out.
\<close>

record state =
  controller :: "controller option"
  rec_dict :: "(rid \<times> dummy_controller) list"
  outgoing_size :: nat
  outgoing :: "(rid \<times> pyval) list"
  member_controller :: "rid \<Rightarrow> cref option"
  member_str :: "rid \<Rightarrow> string"
  players :: queues
  dummy_queue :: "nat \<Rightarrow> pyval list"

text \<open>
  \<^verbatim>\<open>int(len(self._rec_dict) * 1.5)\<close>: the product is exact in floating point for
  every length a dictionary can have, and \<^verbatim>\<open>int\<close> truncates, so the value is
  \<open>3 * n div 2\<close>.
\<close>

definition capacity :: "(rid \<times> dummy_controller) list \<Rightarrow> nat" where
  "capacity d = (length d * 3) div 2"

datatype recarg = Rec rid | NonRec

text \<open>
  \<^verbatim>\<open>__init__(self, *receivers)\<close>. Every pass of the loop creates a new adapter,
  whose identity is the number of the pass and whose queue is empty; storing under a key
  that is already present replaces the value and keeps the key's position.
\<close>

fun rec_dict_loop :: "nat \<Rightarrow> (rid \<times> dummy_controller) list \<Rightarrow> recarg list \<Rightarrow> error + (rid \<times> dummy_controller) list" where
  "rec_dict_loop n d [] = Inr d"
| "rec_dict_loop n d (a # rest) =
     (case a of
        NonRec \<Rightarrow> Inl AssertionError
      | Rec r \<Rightarrow>
          rec_dict_loop (Suc n)
            (AList.update r \<lparr>d_id = n, d_receiver = r\<rparr> d) rest)"

definition Multireceiver_init ::
  "recarg list \<Rightarrow> (rid \<Rightarrow> cref option) \<Rightarrow> (rid \<Rightarrow> string) \<Rightarrow> queues \<Rightarrow> error + state" where
  "Multireceiver_init receivers mc ms q =
     (case rec_dict_loop 0 [] receivers of
        Inl e \<Rightarrow> Inl e
      | Inr d \<Rightarrow>
          Inr \<lparr>controller = None, rec_dict = d, outgoing_size = capacity d, outgoing = [],
               member_controller = mc, member_str = ms, players = q,
               dummy_queue = (\<lambda>i. [])\<rparr>)"

text \<open>
  \<^verbatim>\<open>_check_controllers\<close> walks a copy of the dictionary and deletes from the
  dictionary itself. \<^verbatim>\<open>self.controller.write_msg\<close> raises when there is no
  external controller.
\<close>

fun check_loop :: "(rid \<times> dummy_controller) list \<Rightarrow> state \<Rightarrow> error + state" where
  "check_loop [] s = Inr s"
| "check_loop ((rec, ctrl) # rest) s =
     (if member_controller s rec \<noteq> Some (Dummy (d_id ctrl)) \<and> member_controller s rec \<noteq> None
      then
        (case controller s of
           None \<Rightarrow> Inl AttributeError
         | Some c \<Rightarrow>
             (let s1 = s\<lparr>players :=
                          write_msg c (PyStr (''Lost connection wtih '' @ member_str s rec))
                            (players s)\<rparr>;
                  s2 = s1\<lparr>rec_dict := AList.delete rec (rec_dict s1)\<rparr>;
                  s3 = s2\<lparr>outgoing_size := capacity (rec_dict s2)\<rparr>
              in check_loop rest s3))
      else check_loop rest s)"

definition check_controllers :: "state \<Rightarrow> error + state" where
  "check_controllers s = check_loop (rec_dict s) s"

text \<open>The test of the loop: the member is driven by a controller other than its adapter.\<close>

definition taken_over :: "state \<Rightarrow> rid \<Rightarrow> dummy_controller \<Rightarrow> bool" where
  "taken_over s rec ctrl =
     (member_controller s rec \<noteq> Some (Dummy (d_id ctrl)) \<and> member_controller s rec \<noteq> None)"

text \<open>
  \<^verbatim>\<open>_message(receiver, message)\<close>. \<^verbatim>\<open>pop(0)\<close> runs on a list longer than a
  natural number, hence not empty. The \<^verbatim>\<open>for ... else\<close> runs its
  \<^verbatim>\<open>else\<close> branch when the loop did not \<^verbatim>\<open>break\<close>.
\<close>

definition trim :: "state \<Rightarrow> (rid \<times> pyval) list" where
  "trim s = (if length (outgoing s) > outgoing_size s then tl (outgoing s) else outgoing s)"

definition duplicate :: "rid \<Rightarrow> pyval \<Rightarrow> (rid \<times> pyval) list \<Rightarrow> bool" where
  "duplicate receiver message window =
     list_ex (\<lambda>(rec, msg). msg = message \<and> rec \<noteq> receiver) window"

definition message :: "rid \<Rightarrow> pyval \<Rightarrow> state \<Rightarrow> state" where
  "message receiver msg s =
     (let s1 = s\<lparr>outgoing := trim s\<rparr> in
      if duplicate receiver msg (outgoing s1) then s1
      else
        (case controller s1 of
           None \<Rightarrow> s1
         | Some c \<Rightarrow>
             (let s2 = (if length (outgoing s1) = 0 \<or> fst (last (outgoing s1)) \<noteq> receiver
                        then s1\<lparr>players :=
                                  write_msg c (PyStr (''['' @ member_str s1 receiver @ '']''))
                                    (players s1)\<rparr>
                        else s1);
                  s3 = s2\<lparr>players := write_msg c msg (players s2)\<rparr>
              in s3\<lparr>outgoing := outgoing s3 @ [(receiver, msg)]\<rparr>)))"

text \<open>
  A routed message is suppressed when it is neither forwarded (the queues of the players
  are what they were) nor appended to the window (the window is the trimmed one).
\<close>

definition suppressed :: "rid \<Rightarrow> pyval \<Rightarrow> state \<Rightarrow> bool" where
  "suppressed receiver msg s =
     (players (message receiver msg s) = players s \<and> outgoing (message receiver msg s) = trim s)"

text \<open>The methods of the adapter.\<close>

definition DummyController_has_cmd :: "dummy_controller \<Rightarrow> state \<Rightarrow> bool" where
  "DummyController_has_cmd self s = (dummy_queue s (d_id self) \<noteq> [])"

definition DummyController_read_cmd :: "dummy_controller \<Rightarrow> state \<Rightarrow> error + (pyval \<times> state)" where
  "DummyController_read_cmd self s =
     (case dummy_queue s (d_id self) of
        [] \<Rightarrow> Inl Blocked
      | c # cs \<Rightarrow> Inr (c, s\<lparr>dummy_queue := (dummy_queue s)(d_id self := cs)\<rparr>))"

definition DummyController_add_cmd :: "pyval \<Rightarrow> dummy_controller \<Rightarrow> state \<Rightarrow> state" where
  "DummyController_add_cmd cmd self s =
     s\<lparr>dummy_queue := (dummy_queue s)(d_id self := dummy_queue s (d_id self) @ [cmd])\<rparr>"

definition DummyController_write_msg :: "dummy_controller \<Rightarrow> pyval \<Rightarrow> state \<Rightarrow> state" where
  "DummyController_write_msg self msg s = message (d_receiver self) msg s"

text \<open>
  \<^verbatim>\<open>has_msg\<close> calls \<^verbatim>\<open>has_msg()\<close> of the external controller inside
  \<^verbatim>\<open>try\<close>, drops the answer, and has no \<^verbatim>\<open>return\<close>; without an external
  controller the \<^verbatim>\<open>AttributeError\<close> is caught and passed over.
\<close>

definition DummyController_has_msg :: "dummy_controller \<Rightarrow> state \<Rightarrow> pyval" where
  "DummyController_has_msg self s =
     (case controller s of
        None \<Rightarrow> PyNone
      | Some c \<Rightarrow> (let answer = has_msg (players s) c in PyNone))"

text \<open>
  \<^verbatim>\<open>update\<close>. The inner loop of the fan-out hands the command to every adapter
  of the dictionary.
\<close>

fun add_cmd_loop :: "pyval \<Rightarrow> dummy_controller list \<Rightarrow> state \<Rightarrow> state" where
  "add_cmd_loop cmd [] s = s"
| "add_cmd_loop cmd (dummy # rest) s = add_cmd_loop cmd rest (DummyController_add_cmd cmd dummy s)"

definition add_cmd_all :: "pyval \<Rightarrow> state \<Rightarrow> state" where
  "add_cmd_all cmd s = add_cmd_loop cmd (map snd (rec_dict s)) s"

text \<open>The identities of the adapters that a dictionary refers to.\<close>

definition adapters :: "(rid \<times> dummy_controller) list \<Rightarrow> nat list" where
  "adapters d = map (\<lambda>(rec, a). d_id a) d"

text \<open>
  The store of adapter queues after a sequence of commands has been added to the queue
  of each of the given adapters, and to no other queue.
\<close>

definition enqueue :: "pyval list \<Rightarrow> nat list \<Rightarrow> (nat \<Rightarrow> pyval list) \<Rightarrow> (nat \<Rightarrow> pyval list)" where
  "enqueue cmds ids q = (\<lambda>i. if i \<in> set ids then q i @ cmds else q i)"

function fan_out :: "controller \<Rightarrow> state \<Rightarrow> error + state" where
  "fan_out c s =
     (if has_cmd (players s) c then
        (case read_cmd c (players s) of
           Inl e \<Rightarrow> Inl e
         | Inr (cmd, q) \<Rightarrow> fan_out c (add_cmd_all cmd (s\<lparr>players := q\<rparr>)))
      else Inr s)"
  by pat_completeness auto
termination
proof (relation "measure (\<lambda>(c, s). sum_list (map (\<lambda>i. length (command_queue (players s) i)) (leaves c)))")
  show "wf (measure (\<lambda>(c, s). sum_list (map (\<lambda>i. length (command_queue (players s) i)) (leaves c))))"
    by simp
next
  fix c :: controller and s :: state and x :: "pyval \<times> queues" and cmd :: pyval and q :: queues
  assume has: "has_cmd (players s) c"
    and rd: "read_cmd c (players s) = Inr x"
    and x: "(cmd, q) = x"
  have pop: "(has_cmd q0 c0 \<longrightarrow> read_cmd c0 q0 = Inr (v, q1) \<longrightarrow>
        (\<exists>i\<in>set (leaves c0). command_queue q0 i \<noteq> [] \<and>
           command_queue q1 = (command_queue q0)(i := tl (command_queue q0 i))))"
    and "(list_ex (has_cmd q0) l0 \<longrightarrow> read_cmd_loop l0 q0 = Inr (v, q1) \<longrightarrow>
        (\<exists>i\<in>set (concat (map leaves l0)). command_queue q0 i \<noteq> [] \<and>
           command_queue q1 = (command_queue q0)(i := tl (command_queue q0 i))))"
    for q0 c0 l0 v q1
    by (induction c0 q0 and l0 q0 rule: read_cmd_read_cmd_loop.induct)
       (auto split: list.splits if_splits)
  have less: "i \<in> set xs \<Longrightarrow> f i \<noteq> [] \<Longrightarrow>
      sum_list (map (\<lambda>j. length ((f(i := tl (f i))) j)) xs) < sum_list (map (\<lambda>j. length (f j)) xs)"
    for i :: pid and xs and f :: "pid \<Rightarrow> pyval list"
  proof (induction xs)
    case Nil
    then show ?case by simp
  next
    case (Cons a xs)
    have le: "sum_list (map (\<lambda>j. length ((f(i := tl (f i))) j)) ys) \<le> sum_list (map (\<lambda>j. length (f j)) ys)" for ys
      by (induction ys) (auto simp: add_le_mono)
    show ?case
    proof (cases "a = i")
      case True
      with Cons.prems have "length (tl (f a)) < length (f a)" by (cases "f a") simp_all
      with True le[of xs] show ?thesis by simp
    next
      case False
      with Cons have "sum_list (map (\<lambda>j. length ((f(i := tl (f i))) j)) xs) < sum_list (map (\<lambda>j. length (f j)) xs)"
        by simp
      with False show ?thesis by simp
    qed
  qed
  from has rd x pop[of "players s" c cmd q] obtain i where
    i: "i \<in> set (leaves c)" "command_queue (players s) i \<noteq> []"
       "command_queue q = (command_queue (players s))(i := tl (command_queue (players s) i))"
    by auto
  have keep: "players (add_cmd_loop cmd ds t) = players t" for ds t
    by (induction ds arbitrary: t) (simp_all add: DummyController_add_cmd_def)
  from less[of i "leaves c" "command_queue (players s)"] i
  show "((c, add_cmd_all cmd (s\<lparr>players := q\<rparr>)), (c, s))
          \<in> measure (\<lambda>(c, s). sum_list (map (\<lambda>i. length (command_queue (players s) i)) (leaves c)))"
    by (simp add: add_cmd_all_def keep)
qed

declare fan_out.simps [simp del]

text \<open>
  The members' own \<^verbatim>\<open>update\<close> methods belong to the entities that are driven,
  outside this module: \<open>rec_update\<close> stands for them.
\<close>

fun update_members :: "(rid \<Rightarrow> state \<Rightarrow> error + state) \<Rightarrow> rid list \<Rightarrow> state \<Rightarrow> error + state" where
  "update_members rec_update [] s = Inr s"
| "update_members rec_update (rec # rest) s =
     (case rec_update rec s of
        Inl e \<Rightarrow> Inl e
      | Inr s' \<Rightarrow> update_members rec_update rest s')"

definition update :: "(rid \<Rightarrow> state \<Rightarrow> error + state) \<Rightarrow> state \<Rightarrow> error + state" where
  "update rec_update s =
     (case check_controllers s of
        Inl e \<Rightarrow> Inl e
      | Inr s1 \<Rightarrow>
          (case controller s1 of
             None \<Rightarrow> Inl AttributeError
           | Some c \<Rightarrow>
               (case fan_out c s1 of
                  Inl e \<Rightarrow> Inl e
                | Inr s2 \<Rightarrow> update_members rec_update (map fst (rec_dict s2)) s2)))"

section \<open>Concrete scenarios\<close>

text \<open>Players with nothing queued.\<close>

definition no_queues :: queues where
  "no_queues = \<lparr>command_queue = (\<lambda>i. []), message_queue = (\<lambda>i. [])\<rparr>"

text \<open>Player 0 has nothing to say, player 1 has queued a command, player 2 another one.\<close>

definition two_of_three :: queues where
  "two_of_three =
     \<lparr>command_queue = (\<lambda>i. [])(1 := [PyStr ''look''], 2 := [PyStr ''walk north'']),
      message_queue = (\<lambda>i. [])\<rparr>"

text \<open>Player 0 has queued two commands.\<close>

definition two_commands :: queues where
  "two_commands =
     \<lparr>command_queue = (\<lambda>i. [])(0 := [PyStr ''look'', PyStr ''walk north'']),
      message_queue = (\<lambda>i. [])\<rparr>"

text \<open>The receivers 0, 1 and 2 print as A, B and C.\<close>

definition names :: "rid \<Rightarrow> string" where
  "names = (\<lambda>r. ''?'')(0 := ''A'', 1 := ''B'', 2 := ''C'')"

text \<open>
  \<^verbatim>\<open>Multireceiver(A)\<close> after \<^verbatim>\<open>attach(p)\<close> with the player \<open>p = Player 0\<close>: the
  constructor made adapter 0 for A and set the capacity to \<open>int(1 * 1.5) = 1\<close>, and
  attaching stored \<open>p\<close> and let the adapter take control of A.
\<close>

definition solo :: state where
  "solo =
     \<lparr>controller = Some (Player 0),
      rec_dict = [(0, \<lparr>d_id = 0, d_receiver = 0\<rparr>)],
      outgoing_size = 1,
      outgoing = [],
      member_controller = (\<lambda>r. None)(0 := Some (Dummy 0)),
      member_str = names,
      players = no_queues,
      dummy_queue = (\<lambda>i. [])\<rparr>"

text \<open>
  \<^verbatim>\<open>Multireceiver(A, B, C)\<close> after \<^verbatim>\<open>attach(p)\<close>: three adapters, capacity
  \<open>int(3 * 1.5) = 4\<close>.
\<close>

definition trio :: state where
  "trio =
     \<lparr>controller = Some (Player 0),
      rec_dict = [(0, \<lparr>d_id = 0, d_receiver = 0\<rparr>),
                  (1, \<lparr>d_id = 1, d_receiver = 1\<rparr>),
                  (2, \<lparr>d_id = 2, d_receiver = 2\<rparr>)],
      outgoing_size = 4,
      outgoing = [],
      member_controller = (\<lambda>r. None)(0 := Some (Dummy 0), 1 := Some (Dummy 1), 2 := Some (Dummy 2)),
      member_str = names,
      players = no_queues,
      dummy_queue = (\<lambda>i. [])\<rparr>"

text \<open>The same group after some other controller, object 7, has taken over C.\<close>

definition trio_taken_over :: state where
  "trio_taken_over = trio\<lparr>member_controller := (member_controller trio)(2 := Some (Other 7))\<rparr>"

text \<open>
  A stand-in for the \<^verbatim>\<open>update()\<close> of a driven entity: the member reads every
  command that is queued on its adapter and answers it, through the adapter's
  \<^verbatim>\<open>write_msg\<close>, with its own name and the command.
\<close>

definition answer :: "state \<Rightarrow> rid \<Rightarrow> pyval \<Rightarrow> pyval" where
  "answer s rec cmd =
     (case cmd of PyStr line \<Rightarrow> PyStr (member_str s rec @ '': '' @ line) | _ \<Rightarrow> cmd)"

fun answer_all :: "dummy_controller \<Rightarrow> pyval list \<Rightarrow> state \<Rightarrow> state" where
  "answer_all d [] s = s"
| "answer_all d (cmd # rest) s =
     answer_all d rest (DummyController_write_msg d (answer s (d_receiver d) cmd) s)"

definition echo_update :: "rid \<Rightarrow> state \<Rightarrow> error + state" where
  "echo_update rec s =
     (case map_of (rec_dict s) rec of
        None \<Rightarrow> Inl AttributeError
      | Some d \<Rightarrow>
          Inr (answer_all d (dummy_queue s (d_id d))
                 (s\<lparr>dummy_queue := (dummy_queue s)(d_id d := [])\<rparr>)))"

section \<open>Properties of MultiController\<close>

lemma init_loop_members:
  "init_loop acc (map Ctrl cs) = Inr (acc @ concat (map members cs))"
proof (induction cs arbitrary: acc)
  case Nil
  show ?case by simp
next
  case (Cons c cs)
  show ?case by (cases c) (simp_all add: Cons.IH)
qed

lemma flat_members_leaves: "flat c \<Longrightarrow> members c = map Player (leaves c)"
proof (cases c)
  case (Player i)
  then show ?thesis by simp
next
  case (MultiController l)
  assume "flat c"
  with MultiController have "list_all is_player l" by (simp add: flat_def)
  then have "l = map Player (concat (map leaves l))"
  proof (induction l)
    case Nil
    show ?case by simp
  next
    case (Cons x xs)
    then show ?case by (cases x) simp_all
  qed
  with MultiController show ?thesis by simp
qed

lemma concat_members_leaves:
  "list_all flat cs \<Longrightarrow> concat (map members cs) = map Player (concat (map leaves cs))"
  by (induction cs) (simp_all add: flat_members_leaves)

lemma leaves_map_Player: "concat (map (leaves \<circ> Player) xs) = xs"
  by (induction xs) simp_all

lemma init_loop_rejects: "NonCtrl \<in> set args \<Longrightarrow> init_loop acc args = Inl AssertionError"
  by (induction args arbitrary: acc) (auto split: pyobj.splits controller.splits)

text \<open>
  Claim C8. A \<^verbatim>\<open>MultiController\<close> built from controllers, each a player or a
  composite that a constructor built before (so itself flat), has as its member list the
  members that the constituents contribute, in the order of the arguments; this list is
  the list of the constituents' leaf players in their order; it contains no
  \<^verbatim>\<open>MultiController\<close>; and the fan-out order of the result is the order of the
  leaves of the arguments.
\<close>

theorem MultiController_init_flattens:
  assumes "list_all flat cs"
  shows "MultiController_init (map Ctrl cs) = Inr (MultiController (concat (map members cs)))
    \<and> concat (map members cs) = map Player (concat (map leaves cs))
    \<and> list_all is_player (concat (map members cs))
    \<and> flat (MultiController (concat (map members cs)))
    \<and> leaves (MultiController (concat (map members cs))) = concat (map leaves cs)"
proof -
  have a: "MultiController_init (map Ctrl cs) = Inr (MultiController (concat (map members cs)))"
    by (simp add: MultiController_init_def init_loop_members)
  have b: "concat (map members cs) = map Player (concat (map leaves cs))"
    using assms by (rule concat_members_leaves)
  have c: "list_all is_player (concat (map members cs))"
    unfolding b by (simp add: list_all_iff)
  then have c': "flat (MultiController (concat (map members cs)))"
    by (simp add: flat_def)
  have d: "leaves (MultiController (concat (map members cs))) = concat (map leaves cs)"
    unfolding b by (simp add: leaves_map_Player)
  from a b c c' d show ?thesis by blast
qed

theorem MultiController_init_flattens_witness:
  "MultiController_init [Ctrl (Player 2), Ctrl (Player 3)]
      = Inr (MultiController [Player 2, Player 3])
   \<and> list_all flat [Player 1, MultiController [Player 2, Player 3], Player 4]
   \<and> MultiController_init
        [Ctrl (Player 1), Ctrl (MultiController [Player 2, Player 3]), Ctrl (Player 4)]
      = Inr (MultiController [Player 1, Player 2, Player 3, Player 4])"
proof -
  have i: "MultiController_init [Ctrl (Player 2), Ctrl (Player 3)]
      = Inr (MultiController [Player 2, Player 3])"
    by (simp add: MultiController_init_def)
  have h: "list_all flat [Player 1, MultiController [Player 2, Player 3], Player 4]"
    by (simp add: flat_def)
  from MultiController_init_flattens [OF h] h i show ?thesis by simp
qed

lemma has_cmd_leaves: "has_cmd q c = (\<exists>i\<in>set (leaves c). command_queue q i \<noteq> [])"
  by (induction q c rule: has_cmd.induct) (auto simp: list_ex_iff)

lemma read_cmd_frame:
  "read_cmd c q = Inr (v, q') \<longrightarrow>
     (\<forall>i. command_queue q i = [] \<longrightarrow> command_queue q' i = []) \<and> message_queue q' = message_queue q"
  "read_cmd_loop l q = Inr (v, q') \<longrightarrow>
     (\<forall>i. command_queue q i = [] \<longrightarrow> command_queue q' i = []) \<and> message_queue q' = message_queue q"
  by (induction c q and l q rule: read_cmd_read_cmd_loop.induct) (auto split: list.splits)

lemma read_cmd_returns:
  "has_cmd q c \<longrightarrow> (\<exists>v q'. read_cmd c q = Inr (v, q'))"
  "list_ex (has_cmd q) l \<longrightarrow> (\<exists>v q'. read_cmd_loop l q = Inr (v, q'))"
  by (induction c q and l q rule: read_cmd_read_cmd_loop.induct) (auto split: list.splits)

lemma read_cmd_loop_none: "\<not> list_ex (has_cmd q) l \<Longrightarrow> read_cmd_loop l q = Inr (PyNone, q)"
  by (induction l) simp_all

lemma read_cmd_loop_first:
  "list_ex (has_cmd q) l \<Longrightarrow>
     \<exists>pre c post. l = pre @ c # post \<and> (\<forall>x\<in>set pre. \<not> has_cmd q x) \<and> has_cmd q c
       \<and> read_cmd_loop l q = read_cmd c q"
proof (induction l)
  case Nil
  then show ?case by simp
next
  case (Cons a l)
  show ?case
  proof (cases "has_cmd q a")
    case True
    then have "a # l = [] @ a # l \<and> (\<forall>x\<in>set []. \<not> has_cmd q x) \<and> has_cmd q a
       \<and> read_cmd_loop (a # l) q = read_cmd a q" by simp
    then show ?thesis by blast
  next
    case False
    with Cons.prems have "list_ex (has_cmd q) l" by simp
    from Cons.IH[OF this] obtain pre c post where
      h: "l = pre @ c # post" "\<forall>x\<in>set pre. \<not> has_cmd q x" "has_cmd q c"
         "read_cmd_loop l q = read_cmd c q"
      by blast
    with False have "a # l = (a # pre) @ c # post \<and> (\<forall>x\<in>set (a # pre). \<not> has_cmd q x)
       \<and> has_cmd q c \<and> read_cmd_loop (a # l) q = read_cmd c q" by simp
    then show ?thesis by blast
  qed
qed

text \<open>
  Claim C7. \<^verbatim>\<open>MultiController.has_cmd()\<close> holds exactly when \<^verbatim>\<open>has_cmd()\<close>
  of some member holds. When it holds, the member list splits into members without a
  command, the first member \<open>c\<close> with one, and the rest; \<^verbatim>\<open>read_cmd()\<close> returns,
  its result is the result of \<open>c\<close>'s own \<^verbatim>\<open>read_cmd()\<close>, and the queues of all
  players of the earlier members are what they were.
\<close>

theorem MultiController_has_cmd_read_cmd:
  "has_cmd q (MultiController l) = (\<exists>c\<in>set l. has_cmd q c)
   \<and> (has_cmd q (MultiController l) \<longrightarrow>
        (\<exists>pre c post v q'.
            l = pre @ c # post \<and> (\<forall>x\<in>set pre. \<not> has_cmd q x) \<and> has_cmd q c
          \<and> read_cmd c q = Inr (v, q')
          \<and> read_cmd (MultiController l) q = Inr (v, q')
          \<and> (\<forall>x\<in>set pre. \<forall>i\<in>set (leaves x).
                command_queue q' i = command_queue q i \<and> message_queue q' i = message_queue q i)))"
proof (intro conjI impI)
  show "has_cmd q (MultiController l) = (\<exists>c\<in>set l. has_cmd q c)"
    by (simp add: list_ex_iff)
next
  assume "has_cmd q (MultiController l)"
  then have ex: "list_ex (has_cmd q) l" by simp
  from read_cmd_loop_first[OF ex] obtain pre c post where
    h: "l = pre @ c # post" "\<forall>x\<in>set pre. \<not> has_cmd q x" "has_cmd q c"
       "read_cmd_loop l q = read_cmd c q"
    by blast
  from h(3) read_cmd_returns(1)[of q c] obtain v q' where r: "read_cmd c q = Inr (v, q')"
    by blast
  have unchanged: "command_queue q' i = command_queue q i \<and> message_queue q' i = message_queue q i"
    if "x \<in> set pre" "i \<in> set (leaves x)" for x i
  proof -
    from that h(2) have "command_queue q i = []" by (auto simp: has_cmd_leaves)
    with r read_cmd_frame(1)[of c q v q'] show ?thesis by simp
  qed
  from h r unchanged
  have "l = pre @ c # post \<and> (\<forall>x\<in>set pre. \<not> has_cmd q x) \<and> has_cmd q c
          \<and> read_cmd c q = Inr (v, q')
          \<and> read_cmd (MultiController l) q = Inr (v, q')
          \<and> (\<forall>x\<in>set pre. \<forall>i\<in>set (leaves x).
                command_queue q' i = command_queue q i \<and> message_queue q' i = message_queue q i)"
    by simp
  then show "\<exists>pre c post v q'.
            l = pre @ c # post \<and> (\<forall>x\<in>set pre. \<not> has_cmd q x) \<and> has_cmd q c
          \<and> read_cmd c q = Inr (v, q')
          \<and> read_cmd (MultiController l) q = Inr (v, q')
          \<and> (\<forall>x\<in>set pre. \<forall>i\<in>set (leaves x).
                command_queue q' i = command_queue q i \<and> message_queue q' i = message_queue q i)"
    by blast
qed

theorem MultiController_has_cmd_read_cmd_witness:
  "has_cmd two_of_three (MultiController [Player 0, Player 1, Player 2])
   \<and> (\<exists>pre c post v q'.
          [Player 0, Player 1, Player 2] = pre @ c # post
        \<and> (\<forall>x\<in>set pre. \<not> has_cmd two_of_three x) \<and> has_cmd two_of_three c
        \<and> read_cmd c two_of_three = Inr (v, q')
        \<and> read_cmd (MultiController [Player 0, Player 1, Player 2]) two_of_three = Inr (v, q')
        \<and> (\<forall>x\<in>set pre. \<forall>i\<in>set (leaves x).
              command_queue q' i = command_queue two_of_three i
            \<and> message_queue q' i = message_queue two_of_three i))
   \<and> read_cmd (MultiController [Player 0, Player 1, Player 2]) two_of_three
      = Inr (PyStr ''look'',
             two_of_three\<lparr>command_queue := (command_queue two_of_three)(1 := [])\<rparr>)"
proof -
  have h: "has_cmd two_of_three (MultiController [Player 0, Player 1, Player 2])"
    by (simp add: two_of_three_def)
  have r: "read_cmd (MultiController [Player 0, Player 1, Player 2]) two_of_three
      = Inr (PyStr ''look'',
             two_of_three\<lparr>command_queue := (command_queue two_of_three)(1 := [])\<rparr>)"
    by (simp add: two_of_three_def)
  from MultiController_has_cmd_read_cmd [of two_of_three "[Player 0, Player 1, Player 2]"] h r
  show ?thesis by blast
qed

text \<open>
  Claim C10. When no member of a \<^verbatim>\<open>MultiController\<close> has a command,
  \<^verbatim>\<open>read_cmd()\<close> returns Python's \<^verbatim>\<open>None\<close>: it neither raises nor blocks,
  and all queues are left as they were.
\<close>

theorem MultiController_read_cmd_none:
  assumes "\<not> has_cmd q (MultiController l)"
  shows "read_cmd (MultiController l) q = Inr (PyNone, q)"
  using assms by (simp add: read_cmd_loop_none)

theorem MultiController_read_cmd_none_witness:
  "\<not> has_cmd no_queues (MultiController [Player 0, Player 1])
   \<and> read_cmd (MultiController [Player 0, Player 1]) no_queues = Inr (PyNone, no_queues)"
proof -
  have h: "\<not> has_cmd no_queues (MultiController [Player 0, Player 1])"
    by (simp add: no_queues_def)
  from MultiController_read_cmd_none [OF h] h show ?thesis by simp
qed

section \<open>Properties of Multireceiver\<close>

subsection \<open>Capacity\<close>

lemma init_solo:
  "Multireceiver_init [Rec 0] (\<lambda>r. None) names no_queues
   = Inr (solo\<lparr>controller := None, member_controller := (\<lambda>r. None)\<rparr>)"
  by (simp add: Multireceiver_init_def solo_def capacity_def)

lemma init_capacity:
  "Multireceiver_init receivers mc ms q = Inr s \<Longrightarrow>
     outgoing_size s = capacity (rec_dict s) \<and> outgoing s = [] \<and> controller s = None"
  by (auto simp: Multireceiver_init_def split: sum.splits)

lemma check_loop_capacity:
  "outgoing_size s = capacity (rec_dict s) \<Longrightarrow> check_loop l s = Inr s' \<Longrightarrow>
     outgoing_size s' = capacity (rec_dict s')"
  by (induction l s rule: check_loop.induct) (auto simp: Let_def split: if_splits option.splits)

lemma message_capacity:
  "outgoing_size (message receiver msg s) = outgoing_size s
   \<and> rec_dict (message receiver msg s) = rec_dict s"
  by (simp add: message_def Let_def split: option.split)

lemma window_bound_step:
  "length (outgoing (message m msg s)) \<le> max (length (outgoing s)) (Suc (outgoing_size s))"
  by (auto simp: message_def trim_def Let_def split: option.splits)

lemma capacity_positive: "d \<noteq> [] \<Longrightarrow> 0 < capacity d"
  by (cases d) (simp_all add: capacity_def)

text \<open>
  Claim C1. The capacity is set by the constructor and by every eviction
  (\<open>init_capacity\<close>, \<open>check_loop_capacity\<close>), but the window outgrows it: the
  test before \<^verbatim>\<open>pop(0)\<close> is \<^verbatim>\<open>len(self.outgoing) > self.outgoing_size\<close>, so a
  window that is exactly full is not trimmed before the next entry is appended, and a
  routed message removes one entry at most (\<open>window_bound_step\<close> is the bound that
  holds). In the group of the single member A, with capacity 1, the messages \<open>a\<close> and
  \<open>b\<close> of A leave a window of two entries.
\<close>

theorem window_exceeds_capacity:
  "outgoing_size solo = capacity (rec_dict solo)
   \<and> outgoing_size (message 0 (PyStr ''b'') (message 0 (PyStr ''a'') solo)) = 1
   \<and> outgoing (message 0 (PyStr ''b'') (message 0 (PyStr ''a'') solo))
       = [(0, PyStr ''a''), (0, PyStr ''b'')]
   \<and> outgoing_size (message 0 (PyStr ''b'') (message 0 (PyStr ''a'') solo))
       < length (outgoing (message 0 (PyStr ''b'') (message 0 (PyStr ''a'') solo)))"
  by (simp add: solo_def capacity_def message_def trim_def duplicate_def no_queues_def Let_def)

subsection \<open>Failure detection\<close>

lemma rec_dict_loop_distinct:
  "distinct (map fst d) \<Longrightarrow> rec_dict_loop n d receivers = Inr d' \<Longrightarrow> distinct (map fst d')"
proof (induction receivers arbitrary: n d)
  case Nil
  then show ?case by simp
next
  case (Cons a receivers)
  show ?case
  proof (cases a)
    case (Rec r)
    let ?d = "AList.update r \<lparr>d_id = n, d_receiver = r\<rparr> d"
    from Cons.prems(1) have "distinct (map fst ?d)" by (rule distinct_update)
    moreover from Cons.prems(2) Rec have "rec_dict_loop (Suc n) ?d receivers = Inr d'" by simp
    ultimately show ?thesis by (rule Cons.IH)
  next
    case NonRec
    with Cons.prems(2) show ?thesis by simp
  qed
qed

lemma init_distinct:
  assumes "Multireceiver_init receivers mc ms q = Inr s"
  shows "distinct (map fst (rec_dict s))"
proof -
  from assms obtain d where d: "rec_dict_loop 0 [] receivers = Inr d" "rec_dict s = d"
    by (auto simp: Multireceiver_init_def split: sum.splits)
  have "distinct (map fst ([] :: (rid \<times> dummy_controller) list))" by simp
  from rec_dict_loop_distinct[OF this d(1)] d(2) show ?thesis by simp
qed

lemma check_loop_keep:
  "\<not> taken_over s rec ctrl \<Longrightarrow> check_loop ((rec, ctrl) # rest) s = check_loop rest s"
  by (auto simp: taken_over_def)

lemma check_loop_evict:
  "taken_over s rec ctrl \<Longrightarrow> controller s = Some c \<Longrightarrow>
     check_loop ((rec, ctrl) # rest) s =
       check_loop rest
         (s\<lparr>players := write_msg c (PyStr (''Lost connection wtih '' @ member_str s rec)) (players s),
            rec_dict := AList.delete rec (rec_dict s),
            outgoing_size := capacity (AList.delete rec (rec_dict s))\<rparr>)"
  by (simp add: taken_over_def Let_def)

lemma check_loop_survivors:
  "controller s = Some c \<Longrightarrow> check_loop l s = Inr s' \<Longrightarrow>
     rec_dict s' = filter (\<lambda>x. \<not> (\<exists>d. (fst x, d) \<in> set l \<and> taken_over s (fst x) d)) (rec_dict s)"
proof (induction l arbitrary: s s')
  case Nil
  then show ?case by simp
next
  case (Cons p rest)
  obtain rec ctrl where p: "p = (rec, ctrl)" by (cases p)
  show ?case
  proof (cases "taken_over s rec ctrl")
    case False
    from Cons.prems(2) have r: "check_loop rest s = Inr s'"
      unfolding p check_loop_keep[OF False] .
    have "(\<exists>d. (k, d) \<in> set (p # rest) \<and> taken_over s k d)
        = (\<exists>d. (k, d) \<in> set rest \<and> taken_over s k d)" for k
      using False p by auto
    with Cons.IH[OF Cons.prems(1) r] show ?thesis by simp
  next
    case True
    define s3 where "s3 = s\<lparr>players := write_msg c (PyStr (''Lost connection wtih '' @ member_str s rec)) (players s),
        rec_dict := AList.delete rec (rec_dict s),
        outgoing_size := capacity (AList.delete rec (rec_dict s))\<rparr>"
    from Cons.prems(2) have r: "check_loop rest s3 = Inr s'"
      unfolding p s3_def check_loop_evict[OF True Cons.prems(1)] .
    have c3: "controller s3 = Some c" using Cons.prems(1) by (simp add: s3_def)
    have t3: "taken_over s3 k d = taken_over s k d" for k d by (simp add: taken_over_def s3_def)
    have d3: "rec_dict s3 = filter (\<lambda>x. fst x \<noteq> rec) (rec_dict s)"
      by (simp add: s3_def AList.delete_eq split_def eq_commute)
    have e: "(fst x \<noteq> rec \<and> \<not> (\<exists>d. (fst x, d) \<in> set rest \<and> taken_over s (fst x) d))
        = (\<not> (\<exists>d. (fst x, d) \<in> set (p # rest) \<and> taken_over s (fst x) d))" for x :: "rid \<times> dummy_controller"
      using True p by auto
    from Cons.IH[OF c3 r] show ?thesis
      unfolding d3 filter_filter t3 e .
  qed
qed


lemma check_controllers_survivors:
  assumes "controller s = Some c" and "distinct (map fst (rec_dict s))"
    and "check_controllers s = Inr s'"
  shows "rec_dict s' = filter (\<lambda>(rec, ctrl). \<not> taken_over s rec ctrl) (rec_dict s)"
proof -
  from assms(3) have "check_loop (rec_dict s) s = Inr s'" by (simp add: check_controllers_def)
  from check_loop_survivors[OF assms(1) this]
  have "rec_dict s' = filter (\<lambda>x. \<not> (\<exists>d. (fst x, d) \<in> set (rec_dict s) \<and> taken_over s (fst x) d)) (rec_dict s)" .
  also have "\<dots> = filter (\<lambda>(rec, ctrl). \<not> taken_over s rec ctrl) (rec_dict s)"
  proof (rule filter_cong[OF refl])
    fix x assume x: "x \<in> set (rec_dict s)"
    obtain k a where ka: "x = (k, a)" by (cases x)
    have uniq: "d = a" if "(k, d) \<in> set (rec_dict s)" for d
      using assms(2) that x unfolding ka by (rule eq_key_imp_eq_value)
    have "(\<exists>d. (k, d) \<in> set (rec_dict s) \<and> taken_over s k d) = taken_over s k a"
    proof
      assume "\<exists>d. (k, d) \<in> set (rec_dict s) \<and> taken_over s k d"
      then obtain d where d: "(k, d) \<in> set (rec_dict s)" "taken_over s k d" by blast
      from uniq[OF d(1)] d(2) show "taken_over s k a" by simp
    next
      assume "taken_over s k a"
      with x ka show "\<exists>d. (k, d) \<in> set (rec_dict s) \<and> taken_over s k d" by blast
    qed
    then show "(\<not> (\<exists>d. (fst x, d) \<in> set (rec_dict s) \<and> taken_over s (fst x) d))
        = (case x of (rec, ctrl) \<Rightarrow> \<not> taken_over s rec ctrl)"
      by (simp add: ka)
  qed
  finally show ?thesis .
qed

text \<open>
  Claim C2. The members that \<^verbatim>\<open>_check_controllers\<close> removes are those that the
  claim names (\<open>check_controllers_survivors\<close>) and the capacity is computed anew
  (\<open>check_loop_capacity\<close>), but the notice is misspelled. In the group of A, B and C
  in which another controller has taken over C,
  \<^verbatim>\<open>_check_controllers\<close> removes C alone and sets the capacity to
  \<open>int(2 * 1.5) = 3\<close>, and the notice that reaches the player is spelled
  \<^verbatim>\<open>Lost connection wtih C\<close>, which is not the text \<^verbatim>\<open>Lost connection with C\<close>.
\<close>

theorem eviction_notice_text:
  "check_controllers trio_taken_over
   = Inr (trio_taken_over
        \<lparr>players := no_queues\<lparr>message_queue := (\<lambda>i. [])(0 := [PyStr ''Lost connection wtih C''])\<rparr>,
         rec_dict := [(0, \<lparr>d_id = 0, d_receiver = 0\<rparr>), (1, \<lparr>d_id = 1, d_receiver = 1\<rparr>)],
         outgoing_size := 3\<rparr>)
   \<and> PyStr ''Lost connection wtih C'' \<noteq> PyStr ''Lost connection with C''"
  by (simp add: check_controllers_def trio_taken_over_def trio_def capacity_def names_def
        no_queues_def Let_def)

subsection \<open>The adapter's has_msg\<close>

text \<open>
  Claim C9. \<^verbatim>\<open>DummyController.has_msg()\<close> returns Python's \<^verbatim>\<open>None\<close> for every
  adapter and every state, whatever the queues hold and whether or not an external
  controller is attached.
\<close>

theorem DummyController_has_msg_none: "DummyController_has_msg self s = PyNone"
  by (simp add: DummyController_has_msg_def split: option.split)

subsection \<open>Message routing\<close>

lemma message_suppress:
  "controller s = None \<or> duplicate m msg (trim s) \<Longrightarrow> message m msg s = s\<lparr>outgoing := trim s\<rparr>"
  by (auto simp: message_def Let_def split: option.splits)

lemma message_forward:
  assumes "controller s = Some c" and "\<not> duplicate m msg (trim s)"
  shows "message m msg s =
     s\<lparr>outgoing := trim s @ [(m, msg)],
       players :=
         write_msg c msg
           (if trim s = [] \<or> fst (last (trim s)) \<noteq> m
            then write_msg c (PyStr (''['' @ member_str s m @ '']'')) (players s)
            else players s)\<rparr>"
  using assms by (simp add: message_def Let_def)

text \<open>
  Claim C4, as stated, fails where no external controller is attached: the guard
  \<^verbatim>\<open>if self.controller is not None\<close> then drops the message although the window
  holds nothing that matches it. In the group of A, B and C whose adapters drive the
  members while \<^verbatim>\<open>self.controller\<close> is \<^verbatim>\<open>None\<close> (as after
  \<^verbatim>\<open>attach(None)\<close> on the new group), with an empty window, the message \<open>Hi\<close>
  of A is suppressed.
\<close>

theorem suppressed_without_duplicate:
  "suppressed 0 (PyStr ''Hi'') (trio\<lparr>controller := None\<rparr>)
   \<and> \<not> duplicate 0 (PyStr ''Hi'') (trim (trio\<lparr>controller := None\<rparr>))"
  by (simp add: suppressed_def message_def trio_def trim_def duplicate_def Let_def)

text \<open>
  Claim C4, amended. A message of member \<open>m\<close> is suppressed exactly when no external
  controller is attached or the trimmed window holds an entry with the same message from
  another source.
\<close>

theorem suppressed_iff:
  "suppressed m msg s \<longleftrightarrow> (controller s = None \<or> duplicate m msg (trim s))"
proof (cases "controller s = None \<or> duplicate m msg (trim s)")
  case True
  then show ?thesis by (simp add: suppressed_def message_suppress)
next
  case False
  then obtain c where "controller s = Some c" "\<not> duplicate m msg (trim s)" by auto
  from message_forward[OF this] False show ?thesis by (simp add: suppressed_def)
qed

theorem suppressed_iff_witness:
  "suppressed 1 (PyStr ''Hi'') (message 0 (PyStr ''Hi'') trio)
   \<and> duplicate 1 (PyStr ''Hi'') (trim (message 0 (PyStr ''Hi'') trio))
   \<and> \<not> suppressed 0 (PyStr ''Hi'') trio"
proof -
  have d: "duplicate 1 (PyStr ''Hi'') (trim (message 0 (PyStr ''Hi'') trio))"
    by (simp add: trio_def message_def trim_def duplicate_def Let_def)
  have n: "\<not> (controller trio = None \<or> duplicate 0 (PyStr ''Hi'') (trim trio))"
    by (simp add: trio_def trim_def duplicate_def)
  from suppressed_iff [of 1 "PyStr ''Hi''" "message 0 (PyStr ''Hi'') trio"] d
    suppressed_iff [of 0 "PyStr ''Hi''" trio] n
  show ?thesis by blast
qed

lemma trim_after_forward:
  assumes "0 < outgoing_size s"
  shows "trim (s\<lparr>outgoing := w @ [e], players := q\<rparr>) \<noteq> []
       \<and> last (trim (s\<lparr>outgoing := w @ [e], players := q\<rparr>)) = e"
proof (cases w)
  case Nil
  with assms show ?thesis by (simp add: trim_def)
next
  case (Cons a w')
  then show ?thesis by (simp add: trim_def)
qed

text \<open>
  Claim C5. When a message of \<open>m\<close> is forwarded (an external controller \<open>c\<close> is attached
  and the trimmed window holds no duplicate), \<open>c\<close> is sent the header \<^verbatim>\<open>[m]\<close>
  exactly when the trimmed window is empty or its last source is not \<open>m\<close>, then the
  body, and \<open>(m, message)\<close> is appended to the trimmed window. Hence, for a member \<open>m\<close>
  of a group whose capacity is the one computed from its members, a second message of
  \<open>m\<close> forwarded right after the first is sent as its body alone.
\<close>

theorem message_header_body:
  assumes "controller s = Some c" and "\<not> duplicate m msg (trim s)"
  shows "players (message m msg s) =
           write_msg c msg
             (if trim s = [] \<or> fst (last (trim s)) \<noteq> m
              then write_msg c (PyStr (''['' @ member_str s m @ '']'')) (players s)
              else players s)
       \<and> outgoing (message m msg s) = trim s @ [(m, msg)]
       \<and> ((\<exists>d. (m, d) \<in> set (rec_dict s)) \<and> outgoing_size s = capacity (rec_dict s)
            \<and> \<not> duplicate m msg' (trim (message m msg s)) \<longrightarrow>
            players (message m msg' (message m msg s)) = write_msg c msg' (players (message m msg s))
          \<and> outgoing (message m msg' (message m msg s)) = trim (message m msg s) @ [(m, msg')])"
proof (intro conjI impI)
  note fw = message_forward[OF assms]
  show "players (message m msg s) =
           write_msg c msg
             (if trim s = [] \<or> fst (last (trim s)) \<noteq> m
              then write_msg c (PyStr (''['' @ member_str s m @ '']'')) (players s)
              else players s)"
    by (simp add: fw)
  show "outgoing (message m msg s) = trim s @ [(m, msg)]"
    by (simp add: fw)
  assume h: "(\<exists>d. (m, d) \<in> set (rec_dict s)) \<and> outgoing_size s = capacity (rec_dict s)
            \<and> \<not> duplicate m msg' (trim (message m msg s))"
  then have "rec_dict s \<noteq> []" by auto
  with h have pos: "0 < outgoing_size s" by (simp add: capacity_positive)
  have c': "controller (message m msg s) = Some c" by (simp add: fw assms)
  from h have nd: "\<not> duplicate m msg' (trim (message m msg s))" by simp
  have t: "trim (message m msg s) \<noteq> [] \<and> last (trim (message m msg s)) = (m, msg)"
    unfolding fw by (rule trim_after_forward[OF pos])
  from message_forward[OF c' nd] t
  show "players (message m msg' (message m msg s)) = write_msg c msg' (players (message m msg s))"
    by simp
  from message_forward[OF c' nd]
  show "outgoing (message m msg' (message m msg s)) = trim (message m msg s) @ [(m, msg')]"
    by simp
qed

theorem message_header_body_witness:
  "controller trio = Some (Player 0)
   \<and> \<not> duplicate 0 (PyStr ''Hi'') (trim trio)
   \<and> (\<exists>d. (0, d) \<in> set (rec_dict trio)) \<and> outgoing_size trio = capacity (rec_dict trio)
   \<and> \<not> duplicate 0 (PyStr ''There'') (trim (message 0 (PyStr ''Hi'') trio))
   \<and> message_queue (players (message 0 (PyStr ''There'') (message 0 (PyStr ''Hi'') trio))) 0
       = [PyStr ''[A]'', PyStr ''Hi'', PyStr ''There'']
   \<and> outgoing (message 0 (PyStr ''There'') (message 0 (PyStr ''Hi'') trio))
       = [(0, PyStr ''Hi''), (0, PyStr ''There'')]"
proof -
  have a: "controller trio = Some (Player 0)" by (simp add: trio_def)
  have b: "\<not> duplicate 0 (PyStr ''Hi'') (trim trio)" by (simp add: trio_def trim_def duplicate_def)
  have t: "trim trio = []" by (simp add: trio_def trim_def)
  have c: "(\<exists>d. (0, d) \<in> set (rec_dict trio)) \<and> outgoing_size trio = capacity (rec_dict trio)"
    by (simp add: trio_def capacity_def)
  note th = message_header_body [OF a b, of "PyStr ''There''"]
  have o1: "outgoing (message 0 (PyStr ''Hi'') trio) = [(0, PyStr ''Hi'')]"
    using th t by simp
  have s1: "outgoing_size (message 0 (PyStr ''Hi'') trio) = 4"
    by (simp add: message_capacity) (simp add: trio_def)
  have d: "\<not> duplicate 0 (PyStr ''There'') (trim (message 0 (PyStr ''Hi'') trio))"
    by (simp add: trim_def o1 s1 duplicate_def)
  have p1: "message_queue (players (message 0 (PyStr ''Hi'') trio)) 0 = [PyStr ''[A]'', PyStr ''Hi'']"
    using th t by (simp add: trio_def names_def no_queues_def)
  have tr: "trim (message 0 (PyStr ''Hi'') trio) = [(0, PyStr ''Hi'')]"
    by (simp add: trim_def o1 s1)
  from th c d have
    "players (message 0 (PyStr ''There'') (message 0 (PyStr ''Hi'') trio))
       = write_msg (Player 0) (PyStr ''There'') (players (message 0 (PyStr ''Hi'') trio))"
    "outgoing (message 0 (PyStr ''There'') (message 0 (PyStr ''Hi'') trio))
       = trim (message 0 (PyStr ''Hi'') trio) @ [(0, PyStr ''There'')]"
    by blast+
  with a b c d p1 tr show ?thesis by simp
qed

subsection \<open>Update\<close>

lemma check_loop_controller:
  "controller s = Some c \<Longrightarrow> \<exists>s1. check_loop l s = Inr s1 \<and> controller s1 = Some c"
  by (induction l s rule: check_loop.induct) (auto simp: Let_def)

lemma read_cmd_first:
  "has_cmd q c \<longrightarrow> read_cmd c q = Inr (v, q1) \<longrightarrow>
     (\<exists>pre i post rest. leaves c = pre @ i # post \<and> (\<forall>j\<in>set pre. command_queue q j = [])
        \<and> command_queue q i = v # rest
        \<and> q1 = q\<lparr>command_queue := (command_queue q)(i := rest)\<rparr>)"
  "list_ex (has_cmd q) l \<longrightarrow> read_cmd_loop l q = Inr (v, q1) \<longrightarrow>
     (\<exists>pre i post rest. concat (map leaves l) = pre @ i # post \<and> (\<forall>j\<in>set pre. command_queue q j = [])
        \<and> command_queue q i = v # rest
        \<and> q1 = q\<lparr>command_queue := (command_queue q)(i := rest)\<rparr>)"
proof (induction c q and l q rule: read_cmd_read_cmd_loop.induct)
  case (1 i q)
  show ?case
  proof (intro impI)
    assume "has_cmd q (Player i)" and r: "read_cmd (Player i) q = Inr (v, q1)"
    then obtain rest where "command_queue q i = v # rest"
      "q1 = q\<lparr>command_queue := (command_queue q)(i := rest)\<rparr>"
      by (auto split: list.splits)
    then have "leaves (Player i) = [] @ i # [] \<and> (\<forall>j\<in>set []. command_queue q j = [])
        \<and> command_queue q i = v # rest
        \<and> q1 = q\<lparr>command_queue := (command_queue q)(i := rest)\<rparr>" by simp
    then show "\<exists>pre i' post rest. leaves (Player i) = pre @ i' # post \<and> (\<forall>j\<in>set pre. command_queue q j = [])
        \<and> command_queue q i' = v # rest
        \<and> q1 = q\<lparr>command_queue := (command_queue q)(i' := rest)\<rparr>" by blast
  qed
next
  case (2 l q)
  then show ?case by simp
next
  case (3 q)
  show ?case by simp
next
  case (4 ctrl rest q)
  show ?case
  proof (intro impI)
    assume ex: "list_ex (has_cmd q) (ctrl # rest)"
      and r: "read_cmd_loop (ctrl # rest) q = Inr (v, q1)"
    show "\<exists>pre i post rest'. concat (map leaves (ctrl # rest)) = pre @ i # post
        \<and> (\<forall>j\<in>set pre. command_queue q j = [])
        \<and> command_queue q i = v # rest'
        \<and> q1 = q\<lparr>command_queue := (command_queue q)(i := rest')\<rparr>"
    proof (cases "has_cmd q ctrl")
      case True
      with r have "read_cmd ctrl q = Inr (v, q1)" by simp
      with 4(1)[OF True] True obtain pre i post rest' where
        h: "leaves ctrl = pre @ i # post" "\<forall>j\<in>set pre. command_queue q j = []"
           "command_queue q i = v # rest'"
           "q1 = q\<lparr>command_queue := (command_queue q)(i := rest')\<rparr>"
        by blast
      then have "concat (map leaves (ctrl # rest)) = pre @ i # (post @ concat (map leaves rest))
        \<and> (\<forall>j\<in>set pre. command_queue q j = [])
        \<and> command_queue q i = v # rest'
        \<and> q1 = q\<lparr>command_queue := (command_queue q)(i := rest')\<rparr>" by simp
      then show ?thesis by blast
    next
      case False
      with r have r': "read_cmd_loop rest q = Inr (v, q1)" by simp
      from False ex have ex': "list_ex (has_cmd q) rest" by simp
      from False have e: "\<forall>j\<in>set (leaves ctrl). command_queue q j = []"
        by (simp add: has_cmd_leaves)
      from 4(2)[OF False] ex' r' obtain pre i post rest' where
        h: "concat (map leaves rest) = pre @ i # post" "\<forall>j\<in>set pre. command_queue q j = []"
           "command_queue q i = v # rest'"
           "q1 = q\<lparr>command_queue := (command_queue q)(i := rest')\<rparr>"
        by blast
      with e have "concat (map leaves (ctrl # rest)) = (leaves ctrl @ pre) @ i # post
        \<and> (\<forall>j\<in>set (leaves ctrl @ pre). command_queue q j = [])
        \<and> command_queue q i = v # rest'
        \<and> q1 = q\<lparr>command_queue := (command_queue q)(i := rest')\<rparr>" by auto
      then show ?thesis by blast
    qed
  qed
qed

lemma queues_upd_idem:
  "command_queue q j = [] \<Longrightarrow> q\<lparr>command_queue := (command_queue q)(j := [])\<rparr> = q"
  by (simp add: fun_upd_idem)

lemma queued_empty: "\<forall>i\<in>set xs. command_queue q i = [] \<Longrightarrow> queued q xs = []"
  by (induction xs) (simp_all add: queues_upd_idem)

lemma queues_upd_upd:
  "(q\<lparr>command_queue := (command_queue q)(i := rest)\<rparr>)
      \<lparr>command_queue := (command_queue (q\<lparr>command_queue := (command_queue q)(i := rest)\<rparr>))(i := [])\<rparr>
   = q\<lparr>command_queue := (command_queue q)(i := [])\<rparr>"
  by (cases q) (simp add: fun_eq_iff)

lemma queued_pop:
  assumes "\<forall>j\<in>set pre. command_queue q j = []" and "command_queue q i = v # rest"
  shows "queued q (pre @ i # post)
         = v # queued (q\<lparr>command_queue := (command_queue q)(i := rest)\<rparr>) (pre @ i # post)"
  using assms
proof (induction pre)
  case Nil
  have R: "queued (q\<lparr>command_queue := (command_queue q)(i := rest)\<rparr>) (i # post)
      = rest @ queued (q\<lparr>command_queue := (command_queue q)(i := [])\<rparr>) post"
    by (simp only: queued.simps queues_upd_upd) simp
  have L: "queued q (i # post)
      = (v # rest) @ queued (q\<lparr>command_queue := (command_queue q)(i := [])\<rparr>) post"
    using Nil(2) by (simp only: queued.simps)
  show ?case unfolding append_Nil L R by (simp only: append_Cons)
next
  case (Cons j pre)
  define q' where "q' = q\<lparr>command_queue := (command_queue q)(i := rest)\<rparr>"
  from Cons.prems have j: "command_queue q j = []" and ji: "j \<noteq> i" by auto
  from j ji have j': "command_queue q' j = []" by (simp add: q'_def)
  have skip: "queued p ((j # pre) @ i # post) = queued p (pre @ i # post)"
    if "command_queue p j = []" for p
    using that by (simp only: append_Cons queued.simps queues_upd_idem append_Nil)
  from Cons.prems have "queued q (pre @ i # post) = v # queued q' (pre @ i # post)"
    unfolding q'_def by (intro Cons.IH) simp_all
  then have "queued q ((j # pre) @ i # post) = v # queued q' ((j # pre) @ i # post)"
    by (simp only: skip[OF j] skip[OF j'])
  then show ?case by (simp only: q'_def)
qed

lemma drained_idem:
  "\<forall>i\<in>set (leaves c). command_queue q i = [] \<Longrightarrow> drained c q = q"
proof -
  assume "\<forall>i\<in>set (leaves c). command_queue q i = []"
  then have "(\<lambda>i. if i \<in> set (leaves c) then [] else command_queue q i) = command_queue q"
    by (auto simp: fun_eq_iff)
  then show ?thesis by (simp add: drained_def)
qed

lemma drained_pop:
  "i \<in> set (leaves c) \<Longrightarrow>
     drained c (q\<lparr>command_queue := (command_queue q)(i := rest)\<rparr>) = drained c q"
  by (cases q) (auto simp: drained_def fun_eq_iff)

lemma write_msg_command_queue:
  "command_queue (write_msg c msg q) = command_queue q"
  "command_queue (write_msg_loop l msg q) = command_queue q"
  by (induction c msg q and l msg q rule: write_msg_write_msg_loop.induct) simp_all

lemma adapters_delete: "distinct (adapters d) \<Longrightarrow> distinct (adapters (AList.delete k d))"
  by (simp add: adapters_def AList.delete_eq distinct_map_filter)

lemma check_loop_frame:
  "controller s = Some c \<Longrightarrow> check_loop l s = Inr s1 \<Longrightarrow>
     dummy_queue s1 = dummy_queue s \<and> command_queue (players s1) = command_queue (players s)"
  by (induction l s rule: check_loop.induct)
     (auto simp: Let_def write_msg_command_queue split: if_splits)

lemma check_loop_adapters:
  "distinct (adapters (rec_dict s)) \<Longrightarrow> check_loop l s = Inr s1 \<Longrightarrow>
     distinct (adapters (rec_dict s1))"
  by (induction l s rule: check_loop.induct)
     (auto simp: Let_def adapters_delete split: if_splits option.splits)

lemma check_loop_no_controller:
  "controller s = None \<Longrightarrow> check_loop l s = Inl AttributeError \<or> check_loop l s = Inr s"
proof (induction l)
  case Nil
  show ?case by simp
next
  case (Cons p l)
  obtain rec ctrl where p: "p = (rec, ctrl)" by (cases p)
  show ?case
  proof (cases "taken_over s rec ctrl")
    case True
    with Cons.prems p have "check_loop (p # l) s = Inl AttributeError"
      by (simp add: taken_over_def)
    then show ?thesis by simp
  next
    case False
    from Cons.IH[OF Cons.prems] show ?thesis
      unfolding p check_loop_keep[OF False] .
  qed
qed

lemma update_no_controller:
  assumes "controller s = None"
  shows "update rec_update s = Inl AttributeError"
  using check_loop_no_controller[OF assms, of "rec_dict s"] assms
  by (auto simp: update_def check_controllers_def)

lemma enqueue_Nil: "enqueue [] ids q = q"
  by (simp add: enqueue_def fun_eq_iff)

lemma enqueue_Cons: "enqueue cmds ids (enqueue [cmd] ids q) = enqueue (cmd # cmds) ids q"
  by (simp add: enqueue_def fun_eq_iff)

lemma add_cmd_loop_enqueue:
  "distinct (map d_id ds) \<Longrightarrow>
     add_cmd_loop cmd ds s = s\<lparr>dummy_queue := enqueue [cmd] (map d_id ds) (dummy_queue s)\<rparr>"
proof (induction ds arbitrary: s)
  case Nil
  show ?case by (simp add: enqueue_def)
next
  case (Cons d ds)
  then have fresh: "d_id d \<notin> set (map d_id ds)" and dist: "distinct (map d_id ds)" by simp_all
  define q' where "q' = (dummy_queue s)(d_id d := dummy_queue s (d_id d) @ [cmd])"
  have e: "enqueue [cmd] (map d_id ds) q' = enqueue [cmd] (map d_id (d # ds)) (dummy_queue s)"
    using fresh by (auto simp: enqueue_def fun_eq_iff q'_def)
  have "add_cmd_loop cmd (d # ds) s = add_cmd_loop cmd ds (s\<lparr>dummy_queue := q'\<rparr>)"
    by (simp add: DummyController_add_cmd_def q'_def)
  also have "\<dots> = (s\<lparr>dummy_queue := q'\<rparr>)\<lparr>dummy_queue :=
        enqueue [cmd] (map d_id ds) (dummy_queue (s\<lparr>dummy_queue := q'\<rparr>))\<rparr>"
    by (rule Cons.IH[OF dist])
  also have "\<dots> = s\<lparr>dummy_queue := enqueue [cmd] (map d_id (d # ds)) (dummy_queue s)\<rparr>"
    by (simp add: e)
  finally show ?case .
qed

lemma add_cmd_all_enqueue:
  assumes "distinct (adapters (rec_dict s))"
  shows "add_cmd_all cmd s = s\<lparr>dummy_queue := enqueue [cmd] (adapters (rec_dict s)) (dummy_queue s)\<rparr>"
proof -
  have m: "map d_id (map snd (rec_dict s)) = adapters (rec_dict s)"
    by (simp add: adapters_def split_def)
  with assms have "distinct (map d_id (map snd (rec_dict s)))" by simp
  from add_cmd_loop_enqueue[OF this] show ?thesis unfolding add_cmd_all_def m .
qed

lemma fan_out_result:
  "distinct (adapters (rec_dict s)) \<Longrightarrow>
   fan_out c s =
     Inr (s\<lparr>players := drained c (players s),
            dummy_queue := enqueue (queued (players s) (leaves c)) (adapters (rec_dict s))
                             (dummy_queue s)\<rparr>)"
proof (induction c s rule: fan_out.induct)
  case (1 c s)
  show ?case
  proof (cases "has_cmd (players s) c")
    case False
    then have e: "\<forall>i\<in>set (leaves c). command_queue (players s) i = []"
      by (simp add: has_cmd_leaves)
    from False have "fan_out c s = Inr s" by (subst fan_out.simps) simp
    with e show ?thesis by (simp add: queued_empty drained_idem enqueue_Nil)
  next
    case True
    with read_cmd_returns(1)[of "players s" c] obtain v q1 where
      r: "read_cmd c (players s) = Inr (v, q1)" by blast
    with True read_cmd_first(1)[of "players s" c v q1] obtain pre i post rest where
      h: "leaves c = pre @ i # post" "\<forall>j\<in>set pre. command_queue (players s) j = []"
         "command_queue (players s) i = v # rest"
         "q1 = (players s)\<lparr>command_queue := (command_queue (players s))(i := rest)\<rparr>"
      by blast
    from h(1) have i: "i \<in> set (leaves c)" by simp
    have q: "queued (players s) (leaves c) = v # queued q1 (leaves c)"
      unfolding h(1) h(4) by (rule queued_pop[OF h(2) h(3)])
    have d: "drained c q1 = drained c (players s)"
      unfolding h(4) by (rule drained_pop[OF i])
    define t where "t = add_cmd_all v (s\<lparr>players := q1\<rparr>)"
    have t: "t = s\<lparr>players := q1,
                   dummy_queue := enqueue [v] (adapters (rec_dict s)) (dummy_queue s)\<rparr>"
      unfolding t_def using "1.prems" by (simp add: add_cmd_all_enqueue)
    then have dt: "distinct (adapters (rec_dict t))" using "1.prems" by simp
    from True r have "fan_out c s = fan_out c t"
      unfolding t_def by (subst fan_out.simps) simp
    also have "\<dots> = Inr (t\<lparr>players := drained c (players t),
          dummy_queue := enqueue (queued (players t) (leaves c)) (adapters (rec_dict t))
                           (dummy_queue t)\<rparr>)"
      using "1.IH"[OF True r refl] dt unfolding t_def by simp
    also have "\<dots> = Inr (s\<lparr>players := drained c (players s),
            dummy_queue := enqueue (queued (players s) (leaves c)) (adapters (rec_dict s))
                             (dummy_queue s)\<rparr>)"
      by (simp add: t q d enqueue_Cons)
    finally show ?thesis .
  qed
qed

lemma drained_no_cmd: "\<not> has_cmd (drained c q) c"
  by (simp add: has_cmd_leaves drained_def)

lemma foldl_raised:
  "foldl (\<lambda>acc rec. case acc of Inl e \<Rightarrow> Inl e | Inr t \<Rightarrow> f rec t) (Inl e) rs = Inl e"
  by (induction rs) simp_all

lemma update_members_foldl:
  "update_members f rs s
   = foldl (\<lambda>acc rec. case acc of Inl e \<Rightarrow> Inl e | Inr t \<Rightarrow> f rec t) (Inr s) rs"
proof (induction rs arbitrary: s)
  case Nil
  show ?case by simp
next
  case (Cons r rs)
  show ?case by (cases "f r s") (simp_all add: Cons.IH foldl_raised)
qed


lemma adapters_update:
  "set (adapters (AList.update k v d)) \<subseteq> insert (d_id v) (set (adapters d))"
  "d_id v \<notin> set (adapters d) \<Longrightarrow> distinct (adapters d) \<Longrightarrow>
     distinct (adapters (AList.update k v d))"
proof -
  show a: "set (adapters (AList.update k v d)) \<subseteq> insert (d_id v) (set (adapters d))" for d
    by (induction d) (auto simp: adapters_def)
  show "d_id v \<notin> set (adapters d) \<Longrightarrow> distinct (adapters d) \<Longrightarrow>
     distinct (adapters (AList.update k v d))"
  proof (induction d)
    case Nil
    show ?case by (simp add: adapters_def)
  next
    case (Cons p d)
    obtain k' a where p: "p = (k', a)" by (cases p)
    show ?case
    proof (cases "k' = k")
      case True
      with Cons.prems p show ?thesis by (simp add: adapters_def)
    next
      case False
      from Cons.prems p have n: "d_id v \<notin> set (adapters d)" and dd: "distinct (adapters d)"
        and na: "d_id a \<notin> set (adapters d)" and va: "d_id v \<noteq> d_id a"
        by (auto simp: adapters_def)
      from a[of d] na va have "d_id a \<notin> set (adapters (AList.update k v d))" by auto
      with Cons.IH[OF n dd] False p show ?thesis by (simp add: adapters_def)
    qed
  qed
qed

lemma rec_dict_loop_adapters:
  "distinct (adapters d) \<Longrightarrow> \<forall>i\<in>set (adapters d). i < n \<Longrightarrow>
     rec_dict_loop n d receivers = Inr d' \<Longrightarrow> distinct (adapters d')"
proof (induction receivers arbitrary: n d)
  case Nil
  then show ?case by simp
next
  case (Cons a receivers)
  show ?case
  proof (cases a)
    case (Rec r)
    let ?v = "\<lparr>d_id = n, d_receiver = r\<rparr>"
    let ?d = "AList.update r ?v d"
    from Cons.prems(2) have fresh: "d_id ?v \<notin> set (adapters d)" by auto
    have 1: "distinct (adapters ?d)" using fresh Cons.prems(1) by (rule adapters_update(2))
    have 2: "\<forall>i\<in>set (adapters ?d). i < Suc n"
      using adapters_update(1)[of r ?v d] Cons.prems(2) by fastforce
    from Cons.prems(3) Rec have 3: "rec_dict_loop (Suc n) ?d receivers = Inr d'" by simp
    from 1 2 3 show ?thesis by (rule Cons.IH)
  next
    case NonRec
    with Cons.prems(3) show ?thesis by simp
  qed
qed

lemma init_adapters:
  assumes "Multireceiver_init receivers mc ms q = Inr s"
  shows "distinct (adapters (rec_dict s))"
proof -
  from assms obtain d where d: "rec_dict_loop 0 [] receivers = Inr d" "rec_dict s = d"
    by (auto simp: Multireceiver_init_def split: sum.splits)
  have "distinct (adapters [])" "\<forall>i\<in>set (adapters []). i < 0" by (simp_all add: adapters_def)
  from rec_dict_loop_adapters[OF this d(1)] d(2) show ?thesis by simp
qed

text \<open>
  Claim C6, as stated, fails for a group that has no external controller:
  \<^verbatim>\<open>update()\<close> raises \<^verbatim>\<open>AttributeError\<close> at
  \<^verbatim>\<open>self.controller.has_cmd()\<close>, after the failure detection and before any member
  is updated. So it does for the group of A, B and C while \<^verbatim>\<open>self.controller\<close> is
  \<^verbatim>\<open>None\<close>.
\<close>

theorem update_without_controller:
  "update echo_update (trio\<lparr>controller := None\<rparr>) = Inl AttributeError"
  by (simp add: update_def check_controllers_def trio_def)

text \<open>
  Claim C6, amended. In a group whose adapters are distinct objects (as the constructor
  makes them, \<open>init_adapters\<close>, and as the methods keep them): without an external
  controller \<^verbatim>\<open>update()\<close> raises \<^verbatim>\<open>AttributeError\<close>. With an external
  controller \<open>c\<close> it first runs the failure detection, which yields \<open>s1\<close> and touches
  neither the adapters' queues nor the commands queued on \<open>c\<close>; then the fan-out, which
  removes every queued command from \<open>c\<close> (afterwards \<open>c\<close> has none) and appends the same
  sequence, the commands in the order in which \<open>c\<close> hands them out, to the queue of
  every adapter that the dictionary of \<open>s1\<close> still refers to, and to no other queue;
  and then it calls \<^verbatim>\<open>update()\<close> of the members of that dictionary, one after the
  other in the dictionary's order, each on the state the previous one left, starting
  from the state \<open>s2\<close> that the fan-out produced and stopping at the first call that
  raises.
\<close>

theorem update_order:
  assumes "distinct (adapters (rec_dict s))"
  shows "(controller s = None \<longrightarrow> update rec_update s = Inl AttributeError)
    \<and> (controller s = Some c \<longrightarrow>
        (\<exists>s1 s2.
            check_controllers s = Inr s1
          \<and> dummy_queue s1 = dummy_queue s
          \<and> command_queue (players s1) = command_queue (players s)
          \<and> s2 = s1\<lparr>players := drained c (players s1),
                     dummy_queue := enqueue (queued (players s1) (leaves c))
                                      (adapters (rec_dict s1)) (dummy_queue s)\<rparr>
          \<and> \<not> has_cmd (players s2) c
          \<and> update rec_update s =
              foldl (\<lambda>acc rec. case acc of Inl e \<Rightarrow> Inl e | Inr t \<Rightarrow> rec_update rec t)
                (Inr s2) (map fst (rec_dict s1))))"
proof (intro conjI impI)
  assume "controller s = None"
  then show "update rec_update s = Inl AttributeError" by (rule update_no_controller)
next
  assume c: "controller s = Some c"
  from check_loop_controller[OF c, of "rec_dict s"] obtain s1 where
    s1: "check_controllers s = Inr s1" "controller s1 = Some c"
    by (auto simp: check_controllers_def)
  from s1(1) have l: "check_loop (rec_dict s) s = Inr s1" by (simp add: check_controllers_def)
  from check_loop_frame[OF c l] have fr: "dummy_queue s1 = dummy_queue s"
    "command_queue (players s1) = command_queue (players s)" by simp_all
  from check_loop_adapters[OF assms l] have d1: "distinct (adapters (rec_dict s1))" .
  define s2 where "s2 = s1\<lparr>players := drained c (players s1),
                     dummy_queue := enqueue (queued (players s1) (leaves c))
                                      (adapters (rec_dict s1)) (dummy_queue s)\<rparr>"
  have f: "fan_out c s1 = Inr s2"
    unfolding s2_def fr(1)[symmetric] by (rule fan_out_result[OF d1])
  have n: "\<not> has_cmd (players s2) c" by (simp add: s2_def drained_no_cmd)
  have k: "rec_dict s2 = rec_dict s1" by (simp add: s2_def)
  have u: "update rec_update s =
              foldl (\<lambda>acc rec. case acc of Inl e \<Rightarrow> Inl e | Inr t \<Rightarrow> rec_update rec t)
                (Inr s2) (map fst (rec_dict s1))"
    by (simp add: update_def s1 f k update_members_foldl)
  from s1(1) fr s2_def n u
  show "\<exists>s1 s2.
            check_controllers s = Inr s1
          \<and> dummy_queue s1 = dummy_queue s
          \<and> command_queue (players s1) = command_queue (players s)
          \<and> s2 = s1\<lparr>players := drained c (players s1),
                     dummy_queue := enqueue (queued (players s1) (leaves c))
                                      (adapters (rec_dict s1)) (dummy_queue s)\<rparr>
          \<and> \<not> has_cmd (players s2) c
          \<and> update rec_update s =
              foldl (\<lambda>acc rec. case acc of Inl e \<Rightarrow> Inl e | Inr t \<Rightarrow> rec_update rec t)
                (Inr s2) (map fst (rec_dict s1))"
    by blast
qed


theorem update_order_witness:
  "distinct (adapters (rec_dict (trio_taken_over\<lparr>players := two_commands\<rparr>)))
   \<and> controller (trio_taken_over\<lparr>players := two_commands\<rparr>) = Some (Player 0)
   \<and> update (\<lambda>rec s. Inr s) (trio_taken_over\<lparr>players := two_commands\<rparr>)
     = Inr (trio_taken_over
        \<lparr>players := \<lparr>command_queue = (\<lambda>i. []),
                      message_queue = (\<lambda>i. [])(0 := [PyStr ''Lost connection wtih C''])\<rparr>,
         rec_dict := [(0, \<lparr>d_id = 0, d_receiver = 0\<rparr>), (1, \<lparr>d_id = 1, d_receiver = 1\<rparr>)],
         outgoing_size := 3,
         dummy_queue := (\<lambda>i. [])(0 := [PyStr ''look'', PyStr ''walk north''],
                                  1 := [PyStr ''look'', PyStr ''walk north''])\<rparr>)
   \<and> update echo_update (trio_taken_over\<lparr>players := two_commands\<rparr>)
     = Inr (trio_taken_over
        \<lparr>players := \<lparr>command_queue = (\<lambda>i. []),
                      message_queue = (\<lambda>i. [])(0 :=
                        [PyStr ''Lost connection wtih C'',
                         PyStr ''[A]'', PyStr ''A: look'', PyStr ''A: walk north'',
                         PyStr ''[B]'', PyStr ''B: look'', PyStr ''B: walk north''])\<rparr>,
         rec_dict := [(0, \<lparr>d_id = 0, d_receiver = 0\<rparr>), (1, \<lparr>d_id = 1, d_receiver = 1\<rparr>)],
         outgoing_size := 3,
         outgoing := [(0, PyStr ''A: look''), (0, PyStr ''A: walk north''),
                      (1, PyStr ''B: look''), (1, PyStr ''B: walk north'')]\<rparr>)"
proof -
  let ?s = "trio_taken_over\<lparr>players := two_commands\<rparr>"
  let ?s1 = "trio_taken_over
        \<lparr>players := two_commands\<lparr>message_queue := (\<lambda>i. [])(0 := [PyStr ''Lost connection wtih C''])\<rparr>,
         rec_dict := [(0, \<lparr>d_id = 0, d_receiver = 0\<rparr>), (1, \<lparr>d_id = 1, d_receiver = 1\<rparr>)],
         outgoing_size := 3\<rparr>"
  have d: "distinct (adapters (rec_dict ?s))"
    by (simp add: trio_taken_over_def trio_def adapters_def)
  have c: "controller ?s = Some (Player 0)" by (simp add: trio_taken_over_def trio_def)
  have ch: "check_controllers ?s = Inr ?s1"
    by (simp add: check_controllers_def trio_taken_over_def trio_def capacity_def names_def
        two_commands_def Let_def)
  have s2: "?s1\<lparr>players := drained (Player 0) (players ?s1),
               dummy_queue := enqueue (queued (players ?s1) (leaves (Player 0)))
                                (adapters (rec_dict ?s1)) (dummy_queue ?s)\<rparr>
      = trio_taken_over
        \<lparr>players := \<lparr>command_queue = (\<lambda>i. []),
                      message_queue = (\<lambda>i. [])(0 := [PyStr ''Lost connection wtih C''])\<rparr>,
         rec_dict := [(0, \<lparr>d_id = 0, d_receiver = 0\<rparr>), (1, \<lparr>d_id = 1, d_receiver = 1\<rparr>)],
         outgoing_size := 3,
         dummy_queue := (\<lambda>i. [])(0 := [PyStr ''look'', PyStr ''walk north''],
                                  1 := [PyStr ''look'', PyStr ''walk north''])\<rparr>"
    by (simp add: enqueue_def drained_def adapters_def two_commands_def trio_taken_over_def
        trio_def fun_eq_iff)
  have u: "update f ?s =
      foldl (\<lambda>acc rec. case acc of Inl e \<Rightarrow> Inl e | Inr t \<Rightarrow> f rec t)
        (Inr (trio_taken_over
        \<lparr>players := \<lparr>command_queue = (\<lambda>i. []),
                      message_queue = (\<lambda>i. [])(0 := [PyStr ''Lost connection wtih C''])\<rparr>,
         rec_dict := [(0, \<lparr>d_id = 0, d_receiver = 0\<rparr>), (1, \<lparr>d_id = 1, d_receiver = 1\<rparr>)],
         outgoing_size := 3,
         dummy_queue := (\<lambda>i. [])(0 := [PyStr ''look'', PyStr ''walk north''],
                                  1 := [PyStr ''look'', PyStr ''walk north''])\<rparr>)) [0, 1]" for f
  proof -
    from update_order [OF d, of f "Player 0"] c obtain s1 s2 where
      h: "check_controllers ?s = Inr s1"
         "s2 = s1\<lparr>players := drained (Player 0) (players s1),
               dummy_queue := enqueue (queued (players s1) (leaves (Player 0)))
                                (adapters (rec_dict s1)) (dummy_queue ?s)\<rparr>"
         "update f ?s =
            foldl (\<lambda>acc rec. case acc of Inl e \<Rightarrow> Inl e | Inr t \<Rightarrow> f rec t)
              (Inr s2) (map fst (rec_dict s1))"
      by blast
    from h(1) ch have s1: "s1 = ?s1" by simp
    have k: "map fst (rec_dict ?s1) = [0, 1]" by simp
    show ?thesis unfolding h(3) h(2) s1 s2 k ..
  qed
  have 1: "update (\<lambda>rec s. Inr s) ?s
     = Inr (trio_taken_over
        \<lparr>players := \<lparr>command_queue = (\<lambda>i. []),
                      message_queue = (\<lambda>i. [])(0 := [PyStr ''Lost connection wtih C''])\<rparr>,
         rec_dict := [(0, \<lparr>d_id = 0, d_receiver = 0\<rparr>), (1, \<lparr>d_id = 1, d_receiver = 1\<rparr>)],
         outgoing_size := 3,
         dummy_queue := (\<lambda>i. [])(0 := [PyStr ''look'', PyStr ''walk north''],
                                  1 := [PyStr ''look'', PyStr ''walk north''])\<rparr>)"
    unfolding u by simp
  have 2: "update echo_update ?s
     = Inr (trio_taken_over
        \<lparr>players := \<lparr>command_queue = (\<lambda>i. []),
                      message_queue = (\<lambda>i. [])(0 :=
                        [PyStr ''Lost connection wtih C'',
                         PyStr ''[A]'', PyStr ''A: look'', PyStr ''A: walk north'',
                         PyStr ''[B]'', PyStr ''B: look'', PyStr ''B: walk north''])\<rparr>,
         rec_dict := [(0, \<lparr>d_id = 0, d_receiver = 0\<rparr>), (1, \<lparr>d_id = 1, d_receiver = 1\<rparr>)],
         outgoing_size := 3,
         outgoing := [(0, PyStr ''A: look''), (0, PyStr ''A: walk north''),
                      (1, PyStr ''B: look''), (1, PyStr ''B: walk north'')]\<rparr>)"
    unfolding u
    by (simp add: echo_update_def answer_def DummyController_write_msg_def message_def trim_def
        duplicate_def trio_taken_over_def trio_def names_def Let_def fun_eq_iff)
  from d c 1 2 show ?thesis by blast
qed

section \<open>Properties of Monoreceiver\<close>

lemma detach_fields:
  "r_controller (Monoreceiver_detach r h) r = None"
  "r_controller h r = Some c \<Longrightarrow> c_receiver (Monoreceiver_detach r h) c = None"
  by (simp_all add: Monoreceiver_detach_def Let_def split: option.split)

lemma detach_symmetric:
  assumes "symmetric h"
  shows "symmetric (Monoreceiver_detach r h)"
  unfolding symmetric_def
proof (intro allI)
  fix r' c'
  from assms have s: "r_controller h r' = Some c' \<longleftrightarrow> c_receiver h c' = Some r'"
    and s1: "r_controller h r = Some c' \<longleftrightarrow> c_receiver h c' = Some r"
    by (simp_all add: symmetric_def)
  show "r_controller (Monoreceiver_detach r h) r' = Some c'
        \<longleftrightarrow> c_receiver (Monoreceiver_detach r h) c' = Some r'"
  proof (cases "r_controller h r")
    case None
    with s s1 show ?thesis by (auto simp: Monoreceiver_detach_def Let_def)
  next
    case (Some c)
    from assms have s2: "r_controller h r' = Some c \<longleftrightarrow> c_receiver h c = Some r'"
      and s3: "r_controller h r = Some c \<longleftrightarrow> c_receiver h c = Some r"
      by (simp_all add: symmetric_def)
    from Some s s1 s2 s3 show ?thesis by (auto simp: Monoreceiver_detach_def Let_def)
  qed
qed

lemma attach_noop: "r_controller h r = Some c \<Longrightarrow> Monoreceiver_attach r (Some c) h = Inr h"
  by (simp add: Monoreceiver_attach_def)

lemma attach_new:
  "r_controller h r \<noteq> Some c \<Longrightarrow>
     Monoreceiver_attach r (Some c) h =
       Inr ((Monoreceiver_detach r h)
              \<lparr>r_controller := (r_controller (Monoreceiver_detach r h))(r := Some c),
               c_receiver := (c_receiver (Monoreceiver_detach r h))(c := Some r)\<rparr>)"
  by (auto simp: Monoreceiver_attach_def Let_def)

lemma attach_symmetric:
  assumes "symmetric h" and "c_receiver h c = None \<or> c_receiver h c = Some r"
  shows "\<exists>h'. Monoreceiver_attach r (Some c) h = Inr h' \<and> r_controller h' r = Some c
            \<and> c_receiver h' c = Some r \<and> symmetric h'"
proof (cases "r_controller h r = Some c")
  case True
  with assms(1) have "c_receiver h c = Some r" by (simp add: symmetric_def)
  with True assms(1) show ?thesis by (simp add: attach_noop)
next
  case False
  with assms(1) have free: "c_receiver h c = None" using assms(2) by (auto simp: symmetric_def)
  let ?d = "Monoreceiver_detach r h"
  have sd: "symmetric ?d" using assms(1) by (rule detach_symmetric)
  have rd: "r_controller ?d r = None" by (rule detach_fields)
  have cd: "c_receiver ?d c = None"
    using free by (simp add: Monoreceiver_detach_def Let_def split: option.split)
  have "symmetric (?d\<lparr>r_controller := (r_controller ?d)(r := Some c),
               c_receiver := (c_receiver ?d)(c := Some r)\<rparr>)"
    unfolding symmetric_def
  proof (intro allI)
    fix r' c'
    from sd have s: "r_controller ?d r' = Some c' \<longleftrightarrow> c_receiver ?d c' = Some r'"
      and s1: "r_controller ?d r = Some c' \<longleftrightarrow> c_receiver ?d c' = Some r"
      and s2: "r_controller ?d r' = Some c \<longleftrightarrow> c_receiver ?d c = Some r'"
      by (simp_all add: symmetric_def)
    from s s1 s2 rd cd
    show "r_controller (?d\<lparr>r_controller := (r_controller ?d)(r := Some c),
               c_receiver := (c_receiver ?d)(c := Some r)\<rparr>) r' = Some c'
        \<longleftrightarrow> c_receiver (?d\<lparr>r_controller := (r_controller ?d)(r := Some c),
               c_receiver := (c_receiver ?d)(c := Some r)\<rparr>) c' = Some r'"
      by auto
  qed
  with False show ?thesis by (simp add: attach_new)
qed

lemma run_symmetric:
  "symmetric h \<Longrightarrow> exclusive cs h \<Longrightarrow> \<exists>h'. run cs h = Inr h' \<and> symmetric h'"
proof (induction cs arbitrary: h)
  case Nil
  then show ?case by simp
next
  case (Cons x cs)
  show ?case
  proof (cases x)
    case (Attach r c)
    with Cons.prems have free: "c_receiver h c = None \<or> c_receiver h c = Some r" by simp
    from attach_symmetric[OF Cons.prems(1) free] obtain h' where
      h': "Monoreceiver_attach r (Some c) h = Inr h'" "symmetric h'" by blast
    with Cons.prems Attach have "exclusive cs h'" by simp
    from Cons.IH[OF h'(2) this] h'(1) Attach show ?thesis by simp
  next
    case (Detach r)
    with Cons.prems have "exclusive cs (Monoreceiver_detach r h)" by simp
    from Cons.IH[OF detach_symmetric[OF Cons.prems(1)] this] Detach show ?thesis by simp
  qed
qed

lemma exclusive_take: "exclusive cs h \<Longrightarrow> exclusive (take n cs) h"
proof (induction cs arbitrary: h n)
  case Nil
  then show ?case by simp
next
  case (Cons x cs)
  show ?case
  proof (cases n)
    case 0
    then show ?thesis by simp
  next
    case (Suc k)
    with Cons show ?thesis by (cases x) (auto split: sum.splits)
  qed
qed

lemma half_symmetric_call:
  assumes "\<forall>r c. c_receiver h c = Some r \<longrightarrow> r_controller h r = Some c"
  and "do_call x h = Inr h'"
  shows "\<forall>r c. c_receiver h' c = Some r \<longrightarrow> r_controller h' r = Some c"
proof (cases x)
  case (Attach r c)
  show ?thesis
  proof (cases "r_controller h r = Some c")
    case True
    with assms Attach show ?thesis by (simp add: attach_noop)
  next
    case False
    with assms Attach show ?thesis
      by (auto simp: attach_new Monoreceiver_detach_def Let_def split: option.splits if_splits)
  qed
next
  case (Detach r)
  with assms show ?thesis
    by (auto simp: Monoreceiver_detach_def Let_def split: option.splits if_splits)
qed

lemma attach_fields:
  assumes "symmetric h"
  shows "\<exists>h'. Monoreceiver_attach r (Some c) h = Inr h' \<and> r_controller h' r = Some c
            \<and> c_receiver h' c = Some r"
proof (cases "r_controller h r = Some c")
  case True
  with assms have "c_receiver h c = Some r" by (simp add: symmetric_def)
  with True show ?thesis by (simp add: attach_noop)
next
  case False
  then show ?thesis by (simp add: attach_new)
qed

lemma run_half_symmetric:
  "\<forall>r c. c_receiver h c = Some r \<longrightarrow> r_controller h r = Some c \<Longrightarrow> run cs h = Inr h' \<Longrightarrow>
     \<forall>r c. c_receiver h' c = Some r \<longrightarrow> r_controller h' r = Some c"
proof (induction cs arbitrary: h)
  case Nil
  then show ?case by simp
next
  case (Cons x cs)
  from Cons.prems(2) obtain h1 where h1: "do_call x h = Inr h1" "run cs h1 = Inr h'"
    by (auto split: sum.splits)
  from half_symmetric_call[OF Cons.prems(1) h1(1)] Cons.IH h1(2) show ?case by blast
qed

text \<open>
  Claim C3, as stated, fails when two receivers attach the same controller:
  \<^verbatim>\<open>attach\<close> detaches the receiver from its old controller but never the
  controller from its old receiver. After \<^verbatim>\<open>r1.attach(c)\<close> and
  \<^verbatim>\<open>r2.attach(c)\<close> on a fresh heap, \<open>r1.controller\<close> is still \<open>c\<close> while
  \<open>c.receiver\<close> is \<open>r2\<close>.
\<close>

theorem attach_breaks_symmetry:
  "symmetric fresh_heap
   \<and> run [Attach 1 0, Attach 2 0] fresh_heap
       = Inr \<lparr>r_controller = [1 \<mapsto> 0, 2 \<mapsto> 0], c_receiver = [0 \<mapsto> 2]\<rparr>
   \<and> r_controller \<lparr>r_controller = [1 \<mapsto> 0, 2 \<mapsto> 0], c_receiver = [0 \<mapsto> 2]\<rparr> 1 = Some 0
   \<and> c_receiver \<lparr>r_controller = [1 \<mapsto> 0, 2 \<mapsto> 0], c_receiver = [0 \<mapsto> 2]\<rparr> 0 \<noteq> Some 1
   \<and> \<not> symmetric \<lparr>r_controller = [1 \<mapsto> 0, 2 \<mapsto> 0], c_receiver = [0 \<mapsto> 2]\<rparr>"
proof -
  have a: "symmetric fresh_heap" by (simp add: symmetric_def fresh_heap_def)
  have b: "run [Attach 1 0, Attach 2 0] fresh_heap
       = Inr \<lparr>r_controller = [1 \<mapsto> 0, 2 \<mapsto> 0], c_receiver = [0 \<mapsto> 2]\<rparr>"
    by (simp add: fresh_heap_def Monoreceiver_attach_def Monoreceiver_detach_def Let_def fun_eq_iff)
  have c: "\<not> symmetric \<lparr>r_controller = [1 \<mapsto> 0, 2 \<mapsto> 0], c_receiver = [0 \<mapsto> 2]\<rparr>"
  proof
    assume "symmetric \<lparr>r_controller = [1 \<mapsto> 0, 2 \<mapsto> 0], c_receiver = [0 \<mapsto> 2]\<rparr>"
    then have "r_controller \<lparr>r_controller = [1 \<mapsto> 0, 2 \<mapsto> 0], c_receiver = [0 \<mapsto> 2]\<rparr> 1 = Some 0
       \<longleftrightarrow> c_receiver \<lparr>r_controller = [1 \<mapsto> 0, 2 \<mapsto> 0], c_receiver = [0 \<mapsto> 2]\<rparr> 0 = Some 1"
      unfolding symmetric_def by blast
    then show False by simp
  qed
  from a b c show ?thesis by simp
qed

text \<open>
  Claim C3, amended. From a symmetric state: after \<^verbatim>\<open>r.attach(c)\<close>,
  \<open>r.controller\<close> is \<open>c\<close> and \<open>c.receiver\<close> is \<open>r\<close>, and the state is symmetric again
  provided \<open>c\<close> drove no other receiver; after \<^verbatim>\<open>r.detach()\<close>, \<open>r.controller\<close>
  and the receiver of the former controller are \<^verbatim>\<open>None\<close> and the state is
  symmetric; \<^verbatim>\<open>r.attach(c)\<close> with \<open>c\<close> already the controller of \<open>r\<close> changes
  nothing; and after every prefix of a sequence of calls that attach a controller only
  while it drives no other receiver, the state is symmetric.
\<close>

theorem attach_detach_symmetry:
  assumes "symmetric h"
  shows "(\<exists>h'. Monoreceiver_attach r (Some c) h = Inr h' \<and> r_controller h' r = Some c
            \<and> c_receiver h' c = Some r
            \<and> (c_receiver h c = None \<or> c_receiver h c = Some r \<longrightarrow> symmetric h'))
     \<and> r_controller (Monoreceiver_detach r h) r = None
     \<and> (r_controller h r = Some c \<longrightarrow> c_receiver (Monoreceiver_detach r h) c = None)
     \<and> symmetric (Monoreceiver_detach r h)
     \<and> (r_controller h r = Some c \<longrightarrow> Monoreceiver_attach r (Some c) h = Inr h)
     \<and> (exclusive cs h \<longrightarrow> (\<forall>n. \<exists>h'. run (take n cs) h = Inr h' \<and> symmetric h'))"
proof (intro conjI impI allI)
  from attach_fields[OF assms, of r c] obtain h' where
    h': "Monoreceiver_attach r (Some c) h = Inr h'" "r_controller h' r = Some c"
        "c_receiver h' c = Some r" by blast
  have "symmetric h'" if "c_receiver h c = None \<or> c_receiver h c = Some r"
    using attach_symmetric[OF assms that] h'(1) by auto
  with h' show "\<exists>h'. Monoreceiver_attach r (Some c) h = Inr h' \<and> r_controller h' r = Some c
            \<and> c_receiver h' c = Some r
            \<and> (c_receiver h c = None \<or> c_receiver h c = Some r \<longrightarrow> symmetric h')"
    by blast
next
  show "r_controller (Monoreceiver_detach r h) r = None" by (rule detach_fields)
next
  assume "r_controller h r = Some c"
  then show "c_receiver (Monoreceiver_detach r h) c = None" by (rule detach_fields)
next
  show "symmetric (Monoreceiver_detach r h)" using assms by (rule detach_symmetric)
next
  assume "r_controller h r = Some c"
  then show "Monoreceiver_attach r (Some c) h = Inr h" by (rule attach_noop)
next
  fix n
  assume "exclusive cs h"
  then have "exclusive (take n cs) h" by (rule exclusive_take)
  with assms show "\<exists>h'. run (take n cs) h = Inr h' \<and> symmetric h'" by (rule run_symmetric)
qed

theorem attach_detach_symmetry_witness:
  "symmetric fresh_heap
   \<and> exclusive [Attach 1 0, Attach 1 5, Detach 1, Attach 2 0] fresh_heap
   \<and> (\<exists>h'. Monoreceiver_attach 1 (Some 0) fresh_heap = Inr h' \<and> r_controller h' 1 = Some 0
            \<and> c_receiver h' 0 = Some 1 \<and> symmetric h')
   \<and> (\<exists>h'. run [Attach 1 0, Attach 1 5, Detach 1, Attach 2 0] fresh_heap = Inr h' \<and> symmetric h')"
proof -
  have a: "symmetric fresh_heap" by (simp add: symmetric_def fresh_heap_def)
  have e: "exclusive [Attach 1 0, Attach 1 5, Detach 1, Attach 2 0] fresh_heap"
    by (simp add: fresh_heap_def Monoreceiver_attach_def Monoreceiver_detach_def Let_def)
  have f: "c_receiver fresh_heap 0 = None" by (simp add: fresh_heap_def)
  note th = attach_detach_symmetry [OF a, of 1 0 "[Attach 1 0, Attach 1 5, Detach 1, Attach 2 0]"]
  from th f have 1: "\<exists>h'. Monoreceiver_attach 1 (Some 0) fresh_heap = Inr h' \<and> r_controller h' 1 = Some 0
            \<and> c_receiver h' 0 = Some 1 \<and> symmetric h'" by blast
  from th e have "\<exists>h'. run (take 4 [Attach 1 0, Attach 1 5, Detach 1, Attach 2 0]) fresh_heap = Inr h'
            \<and> symmetric h'" by blast
  then have 2: "\<exists>h'. run [Attach 1 0, Attach 1 5, Detach 1, Attach 2 0] fresh_heap = Inr h' \<and> symmetric h'"
    by simp
  from a e 1 2 show ?thesis by blast
qed

end
